theory Spec2Isabelle
  imports Complex_Main "HOL-Library.Sublist" "HOL-Library.Char_ord" "HOL-Library.Multiset"
begin

section \<open>The PII detection-and-redaction pipeline of \<^verbatim>\<open>pii_redaction_agent.py\<close>\<close>

text \<open>
  Conventions of the embedding.
  \<^item> A Python \<^verbatim>\<open>str\<close> is a \<^typ>\<open>string\<close>: one \<^typ>\<open>char\<close> per code point, for
    texts over the code points 0 to 255.
  \<^item> A Python \<^verbatim>\<open>int\<close> is an \<^typ>\<open>int\<close>; a length, a count or a match position is a
    \<^typ>\<open>nat\<close>.
  \<^item> A Python \<^verbatim>\<open>float\<close> is a binary64 value. It is represented by a rational number
    (\<^typ>\<open>rat\<close>): the rational \<open>r\<close> stands for the binary64 value nearest to it,
    \<open>fl r\<close>, as a decimal literal of the source or of a JSON document does. The float
    operations of the report generator round their results with \<open>fl\<close>. Infinities and
    NaN are not represented.
  \<^item> A \<^verbatim>\<open>dict\<close> is an association list in insertion order.
  \<^item> A result that may raise is a sum or a datatype with a branch for every exception
    the source lets escape.
  \<^item> The library functions the source calls (\<^verbatim>\<open>re.finditer\<close>, \<^verbatim>\<open>str.split\<close>,
    \<^verbatim>\<open>str.strip\<close>, \<^verbatim>\<open>sorted\<close>, \<^verbatim>\<open>round\<close>) are modelled as far as the source
    uses them; \<^verbatim>\<open>json.loads\<close> and the two network services are parameters. The
    \<^verbatim>\<open>print\<close> calls are taken to succeed.
\<close>

subsection \<open>Data model\<close>

text \<open>\<^verbatim>\<open>class PIIType(Enum)\<close>: the member names, in declaration order.\<close>

datatype PIIType =
    SSN | EMAIL | PHONE | ADDRESS | CREDIT_CARD | NAME | DATE_OF_BIRTH
  | DRIVER_LICENSE | PASSPORT | BANK_ACCOUNT | IP_ADDRESS | URL

text \<open>\<^verbatim>\<open>pii_type.name\<close>: the identifier of the member.\<close>

fun pii_name :: "PIIType \<Rightarrow> string" where
  "pii_name SSN = ''SSN''"
| "pii_name EMAIL = ''EMAIL''"
| "pii_name PHONE = ''PHONE''"
| "pii_name ADDRESS = ''ADDRESS''"
| "pii_name CREDIT_CARD = ''CREDIT_CARD''"
| "pii_name NAME = ''NAME''"
| "pii_name DATE_OF_BIRTH = ''DATE_OF_BIRTH''"
| "pii_name DRIVER_LICENSE = ''DRIVER_LICENSE''"
| "pii_name PASSPORT = ''PASSPORT''"
| "pii_name BANK_ACCOUNT = ''BANK_ACCOUNT''"
| "pii_name IP_ADDRESS = ''IP_ADDRESS''"
| "pii_name URL = ''URL''"

text \<open>\<^verbatim>\<open>pii_type.value\<close>: the string the member is declared with.\<close>

fun pii_value :: "PIIType \<Rightarrow> string" where
  "pii_value SSN = ''Social Security Number''"
| "pii_value EMAIL = ''Email Address''"
| "pii_value PHONE = ''Phone Number''"
| "pii_value ADDRESS = ''Physical Address''"
| "pii_value CREDIT_CARD = ''Credit Card Number''"
| "pii_value NAME = ''Person Name''"
| "pii_value DATE_OF_BIRTH = ''Date of Birth''"
| "pii_value DRIVER_LICENSE = ''Driver License''"
| "pii_value PASSPORT = ''Passport Number''"
| "pii_value BANK_ACCOUNT = ''Bank Account Number''"
| "pii_value IP_ADDRESS = ''IP Address''"
| "pii_value URL = ''URL''"

text \<open>
  \<^verbatim>\<open>@dataclass class PIIEntity\<close>, with the field types of its annotations. The two
  optional fields default to \<^verbatim>\<open>None\<close> and no extractor sets them.
\<close>

record PIIEntity =
  "text" :: string
  pii_type :: PIIType
  confidence :: rat
  start_position :: int
  end_position :: int
  page_number :: "int option"
  bounding_box :: "(string \<times> int) list option"

subsection \<open>Pattern-based extractor (\<^verbatim>\<open>apply_regex_patterns\<close>)\<close>

text \<open>
  The five patterns use literals, character sets with ranges, the classes \<^verbatim>\<open>\d\<close> and
  \<^verbatim>\<open>\s\<close>, the assertion \<^verbatim>\<open>\b\<close>, concatenation, non-capturing groups and the greedy
  repetitions \<^verbatim>\<open>?\<close>, \<^verbatim>\<open>+\<close>, \<^verbatim>\<open>{n}\<close>, \<^verbatim>\<open>{m,n}\<close> and \<^verbatim>\<open>{m,}\<close>. The syntax tree has a
  constructor for each; \<open>Rep r lo hi\<close> is a greedy repetition between \<open>lo\<close> and \<open>hi\<close>
  times, unbounded for \<open>None\<close>.
\<close>

datatype atom = Chr char | Rng char char | Digit | Space

datatype regex =
    Eps
  | One atom
  | OneOf "atom list"
  | Boundary
  | Cat regex regex
  | Rep regex nat "nat option"

text \<open>
  Character classes of a \<^verbatim>\<open>str\<close> pattern, on the code points 0 to 255: \<^verbatim>\<open>\d\<close> is a
  decimal digit, \<^verbatim>\<open>\s\<close> is \<^verbatim>\<open>str.isspace\<close>, and a word character (for \<^verbatim>\<open>\b\<close>) is
  \<^verbatim>\<open>str.isalnum\<close> or the underscore.
\<close>

definition in_range :: "char \<Rightarrow> char \<Rightarrow> char \<Rightarrow> bool" where
  "in_range lo hi c \<longleftrightarrow> lo \<le> c \<and> c \<le> hi"

definition is_digit :: "char \<Rightarrow> bool" where
  "is_digit c \<longleftrightarrow> in_range (CHR ''0'') (CHR ''9'') c"

definition is_space :: "char \<Rightarrow> bool" where
  "is_space c \<longleftrightarrow>
     in_range (CHR 0x09) (CHR 0x0D) c \<or> in_range (CHR 0x1C) (CHR 0x20) c \<or>
     c = CHR 0x85 \<or> c = CHR 0xA0"

definition is_word :: "char \<Rightarrow> bool" where
  "is_word c \<longleftrightarrow>
     in_range (CHR ''a'') (CHR ''z'') c \<or> in_range (CHR ''A'') (CHR ''Z'') c \<or>
     in_range (CHR ''0'') (CHR ''9'') c \<or> c = CHR ''_'' \<or>
     c = CHR 0xAA \<or> c = CHR 0xB2 \<or> c = CHR 0xB3 \<or> c = CHR 0xB5 \<or>
     c = CHR 0xB9 \<or> c = CHR 0xBA \<or> in_range (CHR 0xBC) (CHR 0xBE) c \<or>
     in_range (CHR 0xC0) (CHR 0xD6) c \<or> in_range (CHR 0xD8) (CHR 0xF6) c \<or>
     in_range (CHR 0xF8) (CHR 0xFF) c"

text \<open>
  \<^verbatim>\<open>re.IGNORECASE\<close> compares case-folded characters. The sets of the five patterns hold
  ASCII characters only, and among the code points 0 to 255 only the ASCII letters have
  a case variant in ASCII, so folding the ASCII letters is all that the flag does here.
\<close>

definition lower :: "char \<Rightarrow> char" where
  "lower c = (if in_range (CHR ''A'') (CHR ''Z'') c then char_of (of_char c + (32::nat)) else c)"

definition upper :: "char \<Rightarrow> char" where
  "upper c = (if in_range (CHR ''a'') (CHR ''z'') c then char_of (of_char c - (32::nat)) else c)"

fun atom_matches :: "bool \<Rightarrow> atom \<Rightarrow> char \<Rightarrow> bool" where
  "atom_matches ignorecase (Chr x) c \<longleftrightarrow> c = x \<or> ignorecase \<and> lower c = lower x"
| "atom_matches ignorecase (Rng lo hi) c \<longleftrightarrow>
     in_range lo hi c \<or>
     ignorecase \<and> (in_range lo hi (lower c) \<or> in_range lo hi (upper c))"
| "atom_matches ignorecase Digit c \<longleftrightarrow> is_digit c"
| "atom_matches ignorecase Space c \<longleftrightarrow> is_space c"

text \<open>
  \<^verbatim>\<open>\b\<close> holds at position \<open>i\<close> when exactly one of the characters before and at \<open>i\<close>
  is a word character; a position outside the string has no word character.
\<close>

definition word_at :: "string \<Rightarrow> int \<Rightarrow> bool" where
  "word_at s i \<longleftrightarrow> 0 \<le> i \<and> i < int (length s) \<and> is_word (s ! nat i)"

definition at_boundary :: "string \<Rightarrow> nat \<Rightarrow> bool" where
  "at_boundary s i \<longleftrightarrow> word_at s (int i - 1) \<noteq> word_at s (int i)"

text \<open>
  The backtracking matcher. \<open>match_ends ignorecase r s i\<close> lists the positions where
  a match of \<open>r\<close> that starts at \<open>i\<close> can end, in the order in which backtracking tries
  them: a greedy repetition tries one more round before it tries to stop. The match
  the engine reports is the first of the list.
\<close>

fun rep_ends :: "(nat \<Rightarrow> nat list) \<Rightarrow> nat \<Rightarrow> nat \<Rightarrow> nat \<Rightarrow> nat list" where
  "rep_ends body lo 0 i = (if lo = 0 then [i] else [])"
| "rep_ends body lo (Suc hi) i =
     concat (map (rep_ends body (lo - 1) hi) (body i)) @ (if lo = 0 then [i] else [])"

text \<open>
  An unbounded repetition gets \<open>lo + (length s - i)\<close> rounds: more than the rest of
  the string allows to a body that consumes a character in each round, as the bodies
  of the unbounded repetitions of the five patterns do.
\<close>

fun match_ends :: "bool \<Rightarrow> regex \<Rightarrow> string \<Rightarrow> nat \<Rightarrow> nat list" where
  "match_ends ignorecase Eps s i = [i]"
| "match_ends ignorecase (One a) s i =
     (if i < length s \<and> atom_matches ignorecase a (s ! i) then [i + 1] else [])"
| "match_ends ignorecase (OneOf as) s i =
     (if i < length s \<and> list_ex (\<lambda>a. atom_matches ignorecase a (s ! i)) as then [i + 1]
      else [])"
| "match_ends ignorecase Boundary s i = (if at_boundary s i then [i] else [])"
| "match_ends ignorecase (Cat r1 r2) s i =
     concat (map (match_ends ignorecase r2 s) (match_ends ignorecase r1 s i))"
| "match_ends ignorecase (Rep r lo hi) s i =
     rep_ends (match_ends ignorecase r s) lo
       (case hi of Some n \<Rightarrow> n | None \<Rightarrow> lo + (length s - i)) i"

text \<open>
  The scanner behind \<^verbatim>\<open>re.finditer\<close>: search for the leftmost position from \<open>pos\<close> on
  where the pattern matches, report the span, and go on from the end of the match.
  After an empty match the next match at the same position must not be empty
  (\<open>must_advance\<close>). The scan stops once \<open>pos\<close> has passed the end of the string.
\<close>

function scan :: "bool \<Rightarrow> regex \<Rightarrow> string \<Rightarrow> nat \<Rightarrow> bool \<Rightarrow> (nat \<times> nat) list" where
  "scan ignorecase r s pos must_advance =
     (if length s < pos then []
      else case filter (\<lambda>e. \<not> (must_advance \<and> e = pos)) (match_ends ignorecase r s pos) of
             [] \<Rightarrow> scan ignorecase r s (pos + 1) False
           | e # _ \<Rightarrow> (pos, e) # scan ignorecase r s e (e = pos))"
  by pat_completeness auto
termination
proof -
  have rep: "i \<le> e"
    if "\<And>j e. e \<in> set (body j) \<Longrightarrow> j \<le> e" and "e \<in> set (rep_ends body lo hi i)"
    for body lo hi and i e :: nat
    using that
  proof (induction hi arbitrary: lo i)
    case 0
    then show ?case by (simp split: if_splits)
  next
    case (Suc hi)
    from Suc.prems(2) consider
        (more) m where "m \<in> set (body i)" "e \<in> set (rep_ends body (lo - 1) hi m)"
      | (stop) "e = i"
      by (auto split: if_splits)
    then show ?case
    proof cases
      case more
      from Suc.prems(1) more(1) have "i \<le> m" by simp
      moreover from Suc.prems(1) more(2) have "m \<le> e" by (rule Suc.IH)
      ultimately show ?thesis by simp
    next
      case stop
      then show ?thesis by simp
    qed
  qed
  have ge: "i \<le> e" if "e \<in> set (match_ends ic r s i)" for ic r s i e
    using that
  proof (induction r arbitrary: i e)
    case (Cat r1 r2)
    from Cat.prems obtain m
      where "m \<in> set (match_ends ic r1 s i)" "e \<in> set (match_ends ic r2 s m)"
      by auto
    with Cat.IH show ?case by (meson le_trans)
  next
    case (Rep r lo hi)
    from Rep.prems
    have "e \<in> set (rep_ends (match_ends ic r s) lo
                   (case hi of Some n \<Rightarrow> n | None \<Rightarrow> lo + (length s - i)) i)"
      by simp
    with Rep.IH show ?case by (rule rep)
  qed (auto split: if_splits)
  let ?R = "measures [\<lambda>(ic, r, s, pos, must). length s + 1 - pos,
                      \<lambda>(ic, r, s, pos, must). if must then 0 else (1::nat)]"
  show ?thesis
  proof (relation ?R)
    show "wf ?R" by simp
  next
    fix ic r s pos and must_advance :: bool
    assume "\<not> length s < pos"
    then show "((ic, r, s, pos + 1, False), ic, r, s, pos, must_advance) \<in> ?R"
      by auto
  next
    fix ic r s pos and must_advance :: bool and e es
    assume le: "\<not> length s < pos"
      and f: "filter (\<lambda>e. \<not> (must_advance \<and> e = pos)) (match_ends ic r s pos) = e # es"
    from f have "e \<in> set (filter (\<lambda>e. \<not> (must_advance \<and> e = pos)) (match_ends ic r s pos))"
      by simp
    then have mem: "e \<in> set (match_ends ic r s pos)" and adv: "\<not> (must_advance \<and> e = pos)"
      by simp_all
    from mem have "pos \<le> e" by (rule ge)
    with le adv show "((ic, r, s, e, e = pos), ic, r, s, pos, must_advance) \<in> ?R"
      by auto
  qed
qed

declare scan.simps [simp del]

text \<open>\<^verbatim>\<open>re.finditer(pattern, text, re.IGNORECASE)\<close>: the spans \<open>(start, end)\<close> in order.\<close>

definition finditer :: "regex \<Rightarrow> string \<Rightarrow> (nat \<times> nat) list" where
  "finditer pattern s = scan True pattern s 0 False"

text \<open>Shorthands for writing the patterns down as the source spells them.\<close>

fun seq :: "regex list \<Rightarrow> regex" where
  "seq [] = Eps"
| "seq [r] = r"
| "seq (r # rs) = Cat r (seq rs)"

definition exactly :: "nat \<Rightarrow> regex \<Rightarrow> regex" where
  "exactly n r = Rep r n (Some n)"

definition opt :: "regex \<Rightarrow> regex" where
  "opt r = Rep r 0 (Some 1)"

definition lit :: "char \<Rightarrow> regex" where
  "lit c = One (Chr c)"

text \<open>
  The dictionary \<^verbatim>\<open>patterns\<close>, in insertion order:
  \<^item> SSN: \<^verbatim>\<open>\b\d{3}-?\d{2}-?\d{4}\b\<close>
  \<^item> EMAIL: \<^verbatim>\<open>\b[A-Za-z0-9._%+-]+@[A-Za-z0-9.-]+\.[A-Z|a-z]{2,}\b\<close>
  \<^item> PHONE: \<^verbatim>\<open>\b(?:\+?1[-.\s]?)?\(?[0-9]{3}\)?[-.\s]?[0-9]{3}[-.\s]?[0-9]{4}\b\<close>
  \<^item> CREDIT_CARD: \<^verbatim>\<open>\b(?:\d{4}[-\s]?){3}\d{4}\b\<close>
  \<^item> IP_ADDRESS: \<^verbatim>\<open>\b(?:[0-9]{1,3}\.){3}[0-9]{1,3}\b\<close>
\<close>

definition patterns :: "(PIIType \<times> regex) list" where
  "patterns =
    [(SSN, seq [Boundary, exactly 3 (One Digit), opt (lit (CHR ''-'')), exactly 2 (One Digit),
                opt (lit (CHR ''-'')), exactly 4 (One Digit), Boundary]),
     (EMAIL, seq [Boundary,
                  Rep (OneOf [Rng (CHR ''A'') (CHR ''Z''), Rng (CHR ''a'') (CHR ''z''),
                            Rng (CHR ''0'') (CHR ''9''), Chr (CHR ''.''), Chr (CHR ''_''),
                            Chr (CHR ''%''), Chr (CHR ''+''), Chr (CHR ''-'')]) 1 None,
                  lit (CHR ''@''),
                  Rep (OneOf [Rng (CHR ''A'') (CHR ''Z''), Rng (CHR ''a'') (CHR ''z''),
                            Rng (CHR ''0'') (CHR ''9''), Chr (CHR ''.''), Chr (CHR ''-'')]) 1 None,
                  lit (CHR ''.''),
                  Rep (OneOf [Rng (CHR ''A'') (CHR ''Z''), Chr (CHR ''|''),
                            Rng (CHR ''a'') (CHR ''z'')]) 2 None,
                  Boundary]),
     (PHONE, seq [Boundary,
                  opt (seq [opt (lit (CHR ''+'')), lit (CHR ''1''),
                            opt (OneOf [Chr (CHR ''-''), Chr (CHR ''.''), Space])]),
                  opt (lit (CHR ''('')),
                  exactly 3 (OneOf [Rng (CHR ''0'') (CHR ''9'')]),
                  opt (lit (CHR '')'')),
                  opt (OneOf [Chr (CHR ''-''), Chr (CHR ''.''), Space]),
                  exactly 3 (OneOf [Rng (CHR ''0'') (CHR ''9'')]),
                  opt (OneOf [Chr (CHR ''-''), Chr (CHR ''.''), Space]),
                  exactly 4 (OneOf [Rng (CHR ''0'') (CHR ''9'')]),
                  Boundary]),
     (CREDIT_CARD, seq [Boundary,
                        exactly 3 (seq [exactly 4 (One Digit),
                                        opt (OneOf [Chr (CHR ''-''), Space])]),
                        exactly 4 (One Digit), Boundary]),
     (IP_ADDRESS, seq [Boundary,
                       exactly 3 (seq [Rep (OneOf [Rng (CHR ''0'') (CHR ''9'')]) 1 (Some 3),
                                       lit (CHR ''.'')]),
                       Rep (OneOf [Rng (CHR ''0'') (CHR ''9'')]) 1 (Some 3), Boundary])]"

text \<open>
  The inner loop \<^verbatim>\<open>for match in matches\<close>: one entity per match, with
  \<^verbatim>\<open>match.group()\<close>, the fixed confidence 0.8, \<^verbatim>\<open>match.start()\<close> and \<^verbatim>\<open>match.end()\<close>.
\<close>

definition entities_of_pattern :: "string \<Rightarrow> PIIType \<Rightarrow> regex \<Rightarrow> PIIEntity list" where
  "entities_of_pattern txt ty pattern =
     map (\<lambda>(start, end).
            \<lparr>text = take (end - start) (drop start txt), pii_type = ty, confidence = 0.8,
             start_position = int start, end_position = int end,
             page_number = None, bounding_box = None\<rparr>)
         (finditer pattern txt)"

text \<open>The outer loop \<^verbatim>\<open>for pii_type, pattern in patterns.items()\<close>.\<close>

definition apply_regex_patterns :: "string \<Rightarrow> PIIEntity list" where
  "apply_regex_patterns txt =
     concat (map (\<lambda>(ty, pattern). entities_of_pattern txt ty pattern) patterns)"

subsection \<open>AI-based extractor (\<^verbatim>\<open>detect_pii_with_ai\<close>, after the network call)\<close>

text \<open>
  The values that \<^verbatim>\<open>json.loads\<close> returns. An object is the list of its items, with
  distinct keys.
\<close>

datatype json =
    JNull | JBool bool | JInt int | JFloat rat | JString string
  | JArray "json list" | JObject "(string \<times> json) list"

text \<open>The exceptions that the extractor does not catch.\<close>

datatype error = KeyError string | TypeError | IndexError | ValueError | RecursionError

text \<open>
  The parser itself is a parameter \<open>json_loads\<close> of the extractor. A call of
  \<^verbatim>\<open>json.loads\<close> returns a value, raises \<^verbatim>\<open>json.JSONDecodeError\<close>, or raises an
  exception of another class: \<^verbatim>\<open>RecursionError\<close> when the nesting of the text exceeds
  the recursion limit of the interpreter, \<^verbatim>\<open>ValueError\<close> when an integer literal has
  more digits than the interpreter converts (4300 by default). \<^verbatim>\<open>JSONDecodeError\<close> is
  a subclass of \<^verbatim>\<open>ValueError\<close>, so a handler for it catches neither of the two.
\<close>

datatype loads_result = Parsed json | JSONDecodeError | LoadsRaised error

text \<open>
  The outcome of a run. The source never checks the field values of a response item
  against the annotations of \<^verbatim>\<open>PIIEntity\<close>. \<open>Untyped\<close> stands for a run in which the
  extractor has built an entity that holds a value outside its annotated type.
  \<^typ>\<open>PIIEntity\<close> cannot express such an entity, and the embedding does not follow
  the run any further: the extractor itself returns normally, and a later step may
  raise \<^verbatim>\<open>TypeError\<close> where it uses the value.
\<close>

datatype 'a outcome = Raises error | Returns 'a | Untyped

text \<open>\<^verbatim>\<open>sub in s\<close> on strings.\<close>

fun contains :: "string \<Rightarrow> string \<Rightarrow> bool" where
  "contains sub [] \<longleftrightarrow> sub = []"
| "contains sub (c # cs) \<longleftrightarrow> prefix sub (c # cs) \<or> contains sub cs"

text \<open>
  \<^verbatim>\<open>s.split(sep)\<close> for a non-empty separator: the pieces between the occurrences of
  \<open>sep\<close>, found from left to right without overlap. \<open>piece\<close> is the piece read so
  far, reversed.
\<close>

function split_loop :: "string \<Rightarrow> string \<Rightarrow> string \<Rightarrow> string list" where
  "split_loop sep piece [] = [rev piece]"
| "split_loop sep piece (c # cs) =
     (if sep \<noteq> [] \<and> prefix sep (c # cs)
      then rev piece # split_loop sep [] (drop (length sep) (c # cs))
      else split_loop sep (c # piece) cs)"
  by pat_completeness auto
termination
  by (relation "measure (\<lambda>(sep, piece, s). length s)") auto

definition str_split :: "string \<Rightarrow> string \<Rightarrow> string list" where
  "str_split s sep = split_loop sep [] s"

text \<open>\<^verbatim>\<open>xs[i]\<close> for an index that is not negative: \<^verbatim>\<open>IndexError\<close> out of range.\<close>

definition list_index :: "'a list \<Rightarrow> nat \<Rightarrow> error + 'a" where
  "list_index xs i = (if i < length xs then Inr (xs ! i) else Inl IndexError)"

text \<open>\<^verbatim>\<open>s.strip()\<close>: without leading and trailing whitespace.\<close>

definition str_strip :: "string \<Rightarrow> string" where
  "str_strip s = rev (dropWhile is_space (rev (dropWhile is_space s)))"

text \<open>
  Removing the code block markers:
  \<^verbatim>\<open>if "```json" in ai_content: ai_content = ai_content.split("```json")[1].split("```")[0]\<close>
  \<^verbatim>\<open>elif "```" in ai_content: ai_content = ai_content.split("```")[1].split("```")[0]\<close>
\<close>

definition strip_code_block :: "string \<Rightarrow> error + string" where
  "strip_code_block ai_content =
     (if contains ''```json'' ai_content then
        (case list_index (str_split ai_content ''```json'') 1 of
           Inl e \<Rightarrow> Inl e
         | Inr inner \<Rightarrow> list_index (str_split inner ''```'') 0)
      else if contains ''```'' ai_content then
        (case list_index (str_split ai_content ''```'') 1 of
           Inl e \<Rightarrow> Inl e
         | Inr inner \<Rightarrow> list_index (str_split inner ''```'') 0)
      else Inr ai_content)"

text \<open>
  \<^verbatim>\<open>item[key]\<close> with a string key: the value of the key in an object, \<^verbatim>\<open>KeyError\<close>
  when the object has no such key, \<^verbatim>\<open>TypeError\<close> on every other JSON value.
\<close>

fun subscript :: "json \<Rightarrow> string \<Rightarrow> error + json" where
  "subscript (JObject d) k = (case map_of d k of None \<Rightarrow> Inl (KeyError k) | Some v \<Rightarrow> Inr v)"
| "subscript _ k = Inl TypeError"

text \<open>
  \<^verbatim>\<open>for item in pii_data\<close>: the elements of an array, the keys of an object, the
  characters of a string; \<^verbatim>\<open>TypeError\<close> for a value that is not iterable.
\<close>

fun iter :: "json \<Rightarrow> error + json list" where
  "iter (JArray items) = Inr items"
| "iter (JObject d) = Inr (map (\<lambda>(k, v). JString k) d)"
| "iter (JString s) = Inr (map (\<lambda>c. JString [c]) s)"
| "iter _ = Inl TypeError"

text \<open>
  \<^verbatim>\<open>PIIType(value)\<close>: the member declared with this value. \<open>None\<close> is the
  \<^verbatim>\<open>ValueError\<close> raised for any other value, which the loop catches to skip the item.
\<close>

definition all_pii_types :: "PIIType list" where
  "all_pii_types = [SSN, EMAIL, PHONE, ADDRESS, CREDIT_CARD, NAME, DATE_OF_BIRTH,
                    DRIVER_LICENSE, PASSPORT, BANK_ACCOUNT, IP_ADDRESS, URL]"

fun PIIType_of :: "json \<Rightarrow> PIIType option" where
  "PIIType_of (JString s) = find (\<lambda>t. pii_value t = s) all_pii_types"
| "PIIType_of _ = None"

text \<open>The JSON values that have the type a field of \<^verbatim>\<open>PIIEntity\<close> is annotated with.\<close>

fun as_str :: "json \<Rightarrow> string option" where
  "as_str (JString s) = Some s"
| "as_str _ = None"

fun as_int :: "json \<Rightarrow> int option" where
  "as_int (JInt i) = Some i"
| "as_int _ = None"

fun as_float :: "json \<Rightarrow> rat option" where
  "as_float (JFloat x) = Some x"
| "as_float (JInt i) = Some (of_int i)"
| "as_float _ = None"

text \<open>
  One round of the loop \<^verbatim>\<open>for item in pii_data\<close>: the item is skipped
  (\<^verbatim>\<open>continue\<close>), an entity is built from its fields as they are, or a subscript
  raises. The fields are read in the order \<^verbatim>\<open>pii_type\<close>, \<^verbatim>\<open>text\<close>, \<^verbatim>\<open>confidence\<close>,
  \<^verbatim>\<open>start_position\<close>, \<^verbatim>\<open>end_position\<close>.
\<close>

datatype item_result = Skipped | Built PIIEntity | BuiltUntyped | Failed error

definition make_entity :: "PIIType \<Rightarrow> json \<Rightarrow> json \<Rightarrow> json \<Rightarrow> json \<Rightarrow> item_result" where
  "make_entity ty t c s n =
     (case (as_str t, as_float c, as_int s, as_int n) of
        (Some t', Some c', Some s', Some n') \<Rightarrow>
          Built \<lparr>text = t', pii_type = ty, confidence = c', start_position = s',
                 end_position = n', page_number = None, bounding_box = None\<rparr>
      | _ \<Rightarrow> BuiltUntyped)"

definition entity_of_item :: "json \<Rightarrow> item_result" where
  "entity_of_item item =
     (case subscript item ''pii_type'' of
        Inl e \<Rightarrow> Failed e
      | Inr v \<Rightarrow>
         (case PIIType_of v of
            None \<Rightarrow> Skipped
          | Some ty \<Rightarrow>
             (case subscript item ''text'' of Inl e \<Rightarrow> Failed e | Inr t \<Rightarrow>
              case subscript item ''confidence'' of Inl e \<Rightarrow> Failed e | Inr c \<Rightarrow>
              case subscript item ''start_position'' of Inl e \<Rightarrow> Failed e | Inr s \<Rightarrow>
              case subscript item ''end_position'' of Inl e \<Rightarrow> Failed e | Inr n \<Rightarrow>
                make_entity ty t c s n)))"

text \<open>
  The loop: the entities built, in order; the first exception ends the run.
\<close>

fun convert_loop :: "json list \<Rightarrow> PIIEntity list outcome" where
  "convert_loop [] = Returns []"
| "convert_loop (item # rest) =
     (case entity_of_item item of
        Failed e \<Rightarrow> Raises e
      | Skipped \<Rightarrow> convert_loop rest
      | Built entity \<Rightarrow>
         (case convert_loop rest of Returns es \<Rightarrow> Returns (entity # es) | r \<Rightarrow> r)
      | BuiltUntyped \<Rightarrow>
         (case convert_loop rest of Raises e \<Rightarrow> Raises e | _ \<Rightarrow> Untyped))"

definition entities_of_pii_data :: "json \<Rightarrow> PIIEntity list outcome" where
  "entities_of_pii_data pii_data =
     (case iter pii_data of Inl e \<Rightarrow> Raises e | Inr items \<Rightarrow> convert_loop items)"

text \<open>
  The extractor from the content of the chat completion on: \<^verbatim>\<open>strip()\<close>, the
  \<^verbatim>\<open>try\<close> block, and \<^verbatim>\<open>except json.JSONDecodeError: return []\<close>. The handler
  catches this one class; every other exception of the \<^verbatim>\<open>try\<close> block leaves the
  function, those of \<^verbatim>\<open>json.loads\<close> included.
\<close>

definition detect_pii_with_ai ::
    "(string \<Rightarrow> loads_result) \<Rightarrow> string \<Rightarrow> PIIEntity list outcome" where
  "detect_pii_with_ai json_loads content =
     (let ai_content = str_strip content
      in case strip_code_block ai_content of
           Inl e \<Rightarrow> Raises e
         | Inr body \<Rightarrow>
            (case json_loads body of
               JSONDecodeError \<Rightarrow> Returns []
             | LoadsRaised e \<Rightarrow> Raises e
             | Parsed pii_data \<Rightarrow> entities_of_pii_data pii_data))"

text \<open>A response item with the five fields of the format the prompt asks for.\<close>

definition ai_item :: "string \<Rightarrow> string \<Rightarrow> rat \<Rightarrow> int \<Rightarrow> int \<Rightarrow> json" where
  "ai_item t ty c s n =
     JObject [(''text'', JString t), (''pii_type'', JString ty), (''confidence'', JFloat c),
              (''start_position'', JInt s), (''end_position'', JInt n)]"

subsection \<open>Entity merger (\<^verbatim>\<open>process_document\<close>, step 5)\<close>

text \<open>
  The condition of the inner loop:
  \<^verbatim>\<open>abs(entity.start_position - existing.start_position) < 5 and
  abs(entity.end_position - existing.end_position) < 5\<close>.
\<close>

definition near :: "PIIEntity \<Rightarrow> PIIEntity \<Rightarrow> bool" where
  "near entity existing \<longleftrightarrow>
     \<bar>start_position entity - start_position existing\<bar> < 5 \<and>
     \<bar>end_position entity - end_position existing\<bar> < 5"

text \<open>
  The inner loop \<^verbatim>\<open>for existing in unique_entities\<close>: it sets \<^verbatim>\<open>is_duplicate\<close> and
  breaks at the first accepted entity that is near.
\<close>

fun is_duplicate :: "PIIEntity \<Rightarrow> PIIEntity list \<Rightarrow> bool" where
  "is_duplicate entity [] = False"
| "is_duplicate entity (existing # rest) =
     (if near entity existing then True else is_duplicate entity rest)"

text \<open>
  The outer loop \<^verbatim>\<open>for entity in all_entities\<close>, with \<^verbatim>\<open>unique_entities\<close> as the
  state; \<^verbatim>\<open>append\<close> adds at the end.
\<close>

fun dedup_loop :: "PIIEntity list \<Rightarrow> PIIEntity list \<Rightarrow> PIIEntity list" where
  "dedup_loop [] unique_entities = unique_entities"
| "dedup_loop (entity # rest) unique_entities =
     dedup_loop rest
       (if \<not> is_duplicate entity unique_entities then unique_entities @ [entity]
        else unique_entities)"

text \<open>
  \<^verbatim>\<open>all_entities = ai_entities + regex_entities\<close>, then the loop from the empty list.
\<close>

definition deduplicate :: "PIIEntity list \<Rightarrow> PIIEntity list" where
  "deduplicate all_entities = dedup_loop all_entities []"

definition merge_entities :: "PIIEntity list \<Rightarrow> PIIEntity list \<Rightarrow> PIIEntity list" where
  "merge_entities ai_entities regex_entities = deduplicate (ai_entities @ regex_entities)"

text \<open>
  Steps 3 to 5 of \<^verbatim>\<open>process_document\<close>: the AI-based extractor (on the content of the
  chat completion for the text), the pattern-based extractor, and the merger of the
  two results. An exception of the AI-based extractor ends the run. A run that is
  \<open>Untyped\<close> after the AI-based extractor stays so: the embedding does not say
  whether the merger returns or raises \<^verbatim>\<open>TypeError\<close> on the ill-typed entity.
\<close>

definition unique_entities ::
    "(string \<Rightarrow> loads_result) \<Rightarrow> string \<Rightarrow> string \<Rightarrow> PIIEntity list outcome" where
  "unique_entities json_loads content text_content =
     (case detect_pii_with_ai json_loads content of
        Raises e \<Rightarrow> Raises e
      | Untyped \<Rightarrow> Untyped
      | Returns ai_entities \<Rightarrow>
          Returns (merge_entities ai_entities (apply_regex_patterns text_content)))"

subsection \<open>Redactor (\<^verbatim>\<open>create_redacted_text\<close>)\<close>

text \<open>The placeholder \<^verbatim>\<open>f"[REDACTED-{entity.pii_type.name}]"\<close>.\<close>

definition placeholder :: "PIIEntity \<Rightarrow> string" where
  "placeholder entity = ''[REDACTED-'' @ pii_name (pii_type entity) @ '']''"

text \<open>
  The slices \<^verbatim>\<open>s[:i]\<close> and \<^verbatim>\<open>s[i:]\<close>: a negative index counts from the end, and an
  index beyond either end is clipped to it.
\<close>

definition slice_to :: "string \<Rightarrow> int \<Rightarrow> string" where
  "slice_to s i = (if i < 0 then take (nat (int (length s) + i)) s else take (nat i) s)"

definition slice_from :: "string \<Rightarrow> int \<Rightarrow> string" where
  "slice_from s i = (if i < 0 then drop (nat (int (length s) + i)) s else drop (nat i) s)"

text \<open>
  \<^verbatim>\<open>sorted(xs, key=key, reverse=True)\<close>: a stable sort that keeps the original order of
  elements with equal keys; the list is reversed, sorted stably in ascending order and
  reversed again.
\<close>

definition sorted_reverse :: "('a \<Rightarrow> int) \<Rightarrow> 'a list \<Rightarrow> 'a list" where
  "sorted_reverse key xs = rev (sort_key key (rev xs))"

text \<open>The loop \<^verbatim>\<open>for entity in sorted_entities\<close>, with \<^verbatim>\<open>redacted_text\<close> as the state.\<close>

fun redact_loop :: "PIIEntity list \<Rightarrow> string \<Rightarrow> string" where
  "redact_loop [] redacted_text = redacted_text"
| "redact_loop (entity # rest) redacted_text =
     redact_loop rest
       (slice_to redacted_text (start_position entity) @ placeholder entity @
        slice_from redacted_text (end_position entity))"

definition create_redacted_text :: "string \<Rightarrow> PIIEntity list \<Rightarrow> string" where
  "create_redacted_text original_text pii_entities =
     redact_loop (sorted_reverse start_position pii_entities) original_text"

subsection \<open>Report generator (\<^verbatim>\<open>generate_redaction_report\<close>)\<close>

text \<open>
  \<^verbatim>\<open>d.get(k, default)\<close> and \<^verbatim>\<open>d[k] = v\<close> on a dictionary in insertion order: a key
  that is present keeps its place, a new key goes to the end.
\<close>

fun dict_get :: "('k \<times> 'v) list \<Rightarrow> 'k \<Rightarrow> 'v \<Rightarrow> 'v" where
  "dict_get [] k dflt = dflt"
| "dict_get ((k', v) # d) k dflt = (if k' = k then v else dict_get d k dflt)"

fun dict_set :: "('k \<times> 'v) list \<Rightarrow> 'k \<Rightarrow> 'v \<Rightarrow> ('k \<times> 'v) list" where
  "dict_set [] k v = [(k, v)]"
| "dict_set ((k', v') # d) k v = (if k' = k then (k', v) # d else (k', v') # dict_set d k v)"

text \<open>
  The loop that counts by type:
  \<^verbatim>\<open>summary[pii_type_name] = summary.get(pii_type_name, 0) + 1\<close>.
\<close>

fun count_by_type :: "PIIEntity list \<Rightarrow> (string \<times> nat) list \<Rightarrow> (string \<times> nat) list" where
  "count_by_type [] summary = summary"
| "count_by_type (entity # rest) summary =
     (let pii_type_name = pii_value (pii_type entity)
      in count_by_type rest
           (dict_set summary pii_type_name (dict_get summary pii_type_name 0 + 1)))"

text \<open>\<^verbatim>\<open>str(n)\<close> for an integer, as the f-string of the position range formats it.\<close>

definition digit_char :: "nat \<Rightarrow> char" where
  "digit_char d = char_of (of_char (CHR ''0'') + d)"

fun str_nat :: "nat \<Rightarrow> string" where
  "str_nat n = (if n < 10 then [digit_char n] else str_nat (n div 10) @ [digit_char (n mod 10)])"

declare str_nat.simps [simp del]

definition str_int :: "int \<Rightarrow> string" where
  "str_int i = (if i < 0 then CHR ''-'' # str_nat (nat (- i)) else str_nat (nat i))"

text \<open>Rounding to the nearest integer, a tie to the even one.\<close>

definition round_half_even :: "rat \<Rightarrow> int" where
  "round_half_even x =
     (let f = \<lfloor>x\<rfloor>; d = x - of_int f
      in if d < 1 / 2 then f else if 1 / 2 < d then f + 1
         else if even f then f else f + 1)"

text \<open>
  Binary64 arithmetic. \<open>exponent x\<close> is the \<open>e\<close> with \<open>2 ^ e \<le> |x| < 2 ^ (e + 1)\<close>,
  found from the bit length of the integer part of \<open>|x|\<close> or of \<open>1 / |x|\<close>. \<open>fl x\<close>
  is the binary64 value nearest to \<open>x\<close>, a tie to the one with the even significand:
  \<open>x\<close> rounded to a multiple of \<open>2 ^ (e - 52)\<close>, with \<open>e\<close> not below the exponent
  -1022 of the subnormal numbers. A result beyond the largest binary64 value, where
  Python gives an infinity, is not modelled; sums and means of confidences between 0
  and 1 stay far below it.
\<close>

function bit_length :: "int \<Rightarrow> int" where
  "bit_length n = (if n \<le> 0 then 0 else 1 + bit_length (n div 2))"
  by pat_completeness auto
termination
  by (relation "measure nat") auto

declare bit_length.simps [simp del]

definition pow2 :: "int \<Rightarrow> rat" where
  "pow2 k = (if 0 \<le> k then 2 ^ nat k else 1 / 2 ^ nat (- k))"

definition exponent :: "rat \<Rightarrow> int" where
  "exponent x =
     (let a = \<bar>x\<bar>
      in if 1 \<le> a then bit_length \<lfloor>a\<rfloor> - 1
         else let k = bit_length \<lfloor>1 / a\<rfloor> - 1
              in if pow2 (- k) \<le> a then - k else - k - 1)"

definition fl :: "rat \<Rightarrow> rat" where
  "fl x =
     (if x = 0 then 0
      else let ulp = pow2 (max (exponent x) (- 1022) - 52)
           in of_int (round_half_even (x / ulp)) * ulp)"

text \<open>
  \<^verbatim>\<open>sum(e.confidence for e in pii_entities)\<close>: the additions from left to right,
  starting from 0, each result rounded to binary64. (CPython from version 3.12 on
  also carries the rounding errors of the additions along and adds them at the end;
  for two summands this gives the same sum.)
\<close>

fun float_sum :: "rat list \<Rightarrow> rat \<Rightarrow> rat" where
  "float_sum [] acc = acc"
| "float_sum (c # cs) acc = float_sum cs (fl (acc + fl c))"

text \<open>
  \<^verbatim>\<open>round(x, ndigits)\<close> on a float: the exact value of \<open>x\<close> rounded to the nearest
  multiple of \<open>10 ^ -ndigits\<close>, a tie to the even one. The result is the decimal that
  stands for the float.
\<close>

definition py_round :: "rat \<Rightarrow> nat \<Rightarrow> rat" where
  "py_round x ndigits = of_int (round_half_even (x * 10 ^ ndigits)) / 10 ^ ndigits"

text \<open>The report dictionary and the dictionaries of its \<^verbatim>\<open>entities\<close> list, by their keys.\<close>

record report_entry =
  entry_text :: string
  entry_type :: string
  entry_confidence :: rat
  entry_position :: string

record redaction_report =
  total_redactions :: nat
  average_confidence :: rat
  by_type :: "(string \<times> nat) list"
  entities :: "report_entry list"

definition report_entry_of :: "PIIEntity \<Rightarrow> report_entry" where
  "report_entry_of entity =
     \<lparr>entry_text = ''***REDACTED***'',
      entry_type = pii_value (pii_type entity),
      entry_confidence = confidence entity,
      entry_position = str_int (start_position entity) @ ''-'' @ str_int (end_position entity)\<rparr>"

text \<open>
  The report. The average is the float sum of the confidences divided by the count
  (an \<^verbatim>\<open>int\<close>, converted to a float), the quotient rounded to binary64; for the empty
  sequence it is the integer 0.
\<close>

definition generate_redaction_report :: "PIIEntity list \<Rightarrow> redaction_report" where
  "generate_redaction_report pii_entities =
     (let summary = count_by_type pii_entities [];
          total = length pii_entities;
          avg_confidence =
            (if total > 0
             then fl (float_sum (map confidence pii_entities) 0 / fl (of_nat total))
             else 0)
      in \<lparr>total_redactions = total,
          average_confidence = py_round avg_confidence 3,
          by_type = summary,
          entities = map report_entry_of pii_entities\<rparr>)"

subsection \<open>Notions used to state the properties\<close>

text \<open>
  The offsets of an entity are valid for a text when they are a non-empty half-open
  interval inside it: \<open>0 \<le> start < end \<le> len(text)\<close>.
\<close>

definition valid_offsets :: "string \<Rightarrow> PIIEntity \<Rightarrow> bool" where
  "valid_offsets t e \<longleftrightarrow>
     0 \<le> start_position e \<and> start_position e < end_position e \<and>
     end_position e \<le> int (length t)"

text \<open>Two spans do not overlap when one ends before the other starts.\<close>

definition disjoint_spans :: "PIIEntity \<Rightarrow> PIIEntity \<Rightarrow> bool" where
  "disjoint_spans a b \<longleftrightarrow>
     end_position a \<le> start_position b \<or> end_position b \<le> start_position a"

definition non_overlapping :: "PIIEntity list \<Rightarrow> bool" where
  "non_overlapping es \<longleftrightarrow>
     (\<forall>i \<in> {..<length es}. \<forall>j \<in> {..<length es}.
        i \<noteq> j \<longrightarrow> disjoint_spans (es ! i) (es ! j))"

text \<open>
  What a redaction has to look like, in the words of the specification: for entities
  in ascending order of their spans, the characters of the text from \<open>lo\<close> up to
  \<open>hi\<close> that lie outside every span, unmodified and in order, with the placeholder of
  each entity where its span was.
\<close>

fun between :: "string \<Rightarrow> nat \<Rightarrow> PIIEntity list \<Rightarrow> nat \<Rightarrow> string" where
  "between t lo [] hi = take (hi - lo) (drop lo t)"
| "between t lo (e # es) hi =
     take (nat (start_position e) - lo) (drop lo t) @ placeholder e @
     between t (nat (end_position e)) es hi"

definition keep_outside :: "string \<Rightarrow> PIIEntity list \<Rightarrow> string" where
  "keep_outside t es = between t 0 es (length t)"

text \<open>
  The spans of a list of entities lie one after the other between \<open>lo\<close> and \<open>hi\<close>,
  each of them non-empty.
\<close>

fun ordered_within :: "nat \<Rightarrow> PIIEntity list \<Rightarrow> nat \<Rightarrow> bool" where
  "ordered_within lo [] hi \<longleftrightarrow> lo \<le> hi"
| "ordered_within lo (e # es) hi \<longleftrightarrow>
     int lo \<le> start_position e \<and> start_position e < end_position e \<and>
     ordered_within (nat (end_position e)) es hi"

text \<open>
  Two entities are far apart when they differ by at least 5 in start offset or by at
  least 5 in end offset; a list is pairwise far when any two of its entries at
  different indices are.
\<close>

definition far :: "PIIEntity \<Rightarrow> PIIEntity \<Rightarrow> bool" where
  "far a b \<longleftrightarrow>
     5 \<le> \<bar>start_position a - start_position b\<bar> \<or>
     5 \<le> \<bar>end_position a - end_position b\<bar>"

definition pairwise_far :: "PIIEntity list \<Rightarrow> bool" where
  "pairwise_far es \<longleftrightarrow>
     (\<forall>i \<in> {..<length es}. \<forall>j \<in> {..<length es}. i \<noteq> j \<longrightarrow> far (es ! i) (es ! j))"

text \<open>
  The float mean of a list of confidences is computed without any rounding: every
  confidence is a binary64 value, and so are every partial sum, the count and the
  quotient.
\<close>

fun exact_sum :: "rat list \<Rightarrow> rat \<Rightarrow> bool" where
  "exact_sum [] acc \<longleftrightarrow> True"
| "exact_sum (c # cs) acc \<longleftrightarrow> fl c = c \<and> fl (acc + c) = acc + c \<and> exact_sum cs (acc + c)"

definition no_rounding :: "rat list \<Rightarrow> bool" where
  "no_rounding cs \<longleftrightarrow>
     exact_sum cs 0 \<and> fl (of_nat (length cs)) = of_nat (length cs) \<and>
     fl (sum_list cs / of_nat (length cs)) = sum_list cs / of_nat (length cs)"

text \<open>Two entities that agree in every field but \<^verbatim>\<open>text\<close>.\<close>

definition same_but_text :: "PIIEntity \<Rightarrow> PIIEntity \<Rightarrow> bool" where
  "same_but_text a b \<longleftrightarrow> b\<lparr>text := text a\<rparr> = a"

text \<open>A pattern that cannot match the empty string, read off its syntax.\<close>

fun consuming :: "regex \<Rightarrow> bool" where
  "consuming Eps \<longleftrightarrow> False"
| "consuming (One a) \<longleftrightarrow> True"
| "consuming (OneOf as) \<longleftrightarrow> True"
| "consuming Boundary \<longleftrightarrow> False"
| "consuming (Cat r1 r2) \<longleftrightarrow> consuming r1 \<or> consuming r2"
| "consuming (Rep r lo hi) \<longleftrightarrow> 0 < lo \<and> consuming r"

text \<open>
  The entity that the five fields of a response item stand for, when the
  \<^verbatim>\<open>pii_type\<close> string is the value of a member.
\<close>

definition entity_of_fields :: "string \<times> string \<times> rat \<times> int \<times> int \<Rightarrow> PIIEntity option" where
  "entity_of_fields f =
     (case f of (t, ty, c, s, n) \<Rightarrow>
        map_option
          (\<lambda>m. \<lparr>text = t, pii_type = m, confidence = c, start_position = s,
                 end_position = n, page_number = None, bounding_box = None\<rparr>)
          (PIIType_of (JString ty)))"

subsection \<open>Example inputs\<close>

text \<open>The text and the two matches of the specification's redaction example.\<close>

definition example_text :: string where
  "example_text = ''A 123-45-6789 B 555-123-4567 C''"

definition example_ssn :: PIIEntity where
  "example_ssn =
     \<lparr>text = ''123-45-6789'', pii_type = SSN, confidence = 0.8, start_position = 2,
      end_position = 13, page_number = None, bounding_box = None\<rparr>"

definition example_phone :: PIIEntity where
  "example_phone =
     \<lparr>text = ''555-123-4567'', pii_type = PHONE, confidence = 0.8, start_position = 16,
      end_position = 28, page_number = None, bounding_box = None\<rparr>"

text \<open>Entities at [10,20), [12,22) and [30,40), as in the specification's merger example.\<close>

definition entity_at :: "int \<Rightarrow> int \<Rightarrow> PIIEntity" where
  "entity_at s n =
     \<lparr>text = ''x'', pii_type = NAME, confidence = 0.9, start_position = s,
      end_position = n, page_number = None, bounding_box = None\<rparr>"

text \<open>An entity with a given confidence.\<close>

definition entity_with_confidence :: "rat \<Rightarrow> PIIEntity" where
  "entity_with_confidence c =
     \<lparr>text = ''x'', pii_type = NAME, confidence = c, start_position = 0,
      end_position = 1, page_number = None, bounding_box = None\<rparr>"

text \<open>
  What \<^verbatim>\<open>json.loads\<close> does on three bodies: it parses the empty array; it raises
  \<^verbatim>\<open>RecursionError\<close> on 1200 opening brackets (CPython 3.11 with its default
  recursion limit of 1000); it raises \<^verbatim>\<open>JSONDecodeError\<close> on a text such as
  \<open>'' not json ''\<close>. The sample stands for \<^verbatim>\<open>json.loads\<close> on these bodies only.
\<close>

definition loads_sample :: "string \<Rightarrow> loads_result" where
  "loads_sample body =
     (if body = ''[]'' then Parsed (JArray [])
      else if body = replicate 1200 (CHR ''['') then LoadsRaised RecursionError
      else JSONDecodeError)"

section \<open>Properties of the pattern-based extractor\<close>

lemma rep_ends_ge:
  "(\<And>j e. e \<in> set (body j) \<Longrightarrow> j \<le> e) \<Longrightarrow> e \<in> set (rep_ends body lo hi i) \<Longrightarrow> i \<le> e"
proof (induction hi arbitrary: lo i)
  case 0
  then show ?case by (simp split: if_splits)
next
  case (Suc hi)
  from Suc.prems(2) consider
      (more) m where "m \<in> set (body i)" "e \<in> set (rep_ends body (lo - 1) hi m)"
    | (stop) "e = i"
    by (auto split: if_splits)
  then show ?case
  proof cases
    case more
    from Suc.prems(1) more(1) have "i \<le> m" by simp
    moreover from Suc.prems(1) more(2) have "m \<le> e" by (rule Suc.IH)
    ultimately show ?thesis by simp
  next
    case stop
    then show ?thesis by simp
  qed
qed

lemma match_ends_ge: "e \<in> set (match_ends ic r s i) \<Longrightarrow> i \<le> e"
proof (induction r arbitrary: i e)
  case (Cat r1 r2)
  from Cat.prems obtain m
    where "m \<in> set (match_ends ic r1 s i)" "e \<in> set (match_ends ic r2 s m)"
    by auto
  with Cat.IH show ?case by (meson le_trans)
next
  case (Rep r lo hi)
  from Rep.prems
  have "e \<in> set (rep_ends (match_ends ic r s) lo
                 (case hi of Some n \<Rightarrow> n | None \<Rightarrow> lo + (length s - i)) i)"
    by simp
  with Rep.IH show ?case by (rule rep_ends_ge)
qed (auto split: if_splits)

lemma rep_ends_le:
  "(\<And>j e. j \<le> n \<Longrightarrow> e \<in> set (body j) \<Longrightarrow> e \<le> n) \<Longrightarrow> i \<le> n \<Longrightarrow>
   e \<in> set (rep_ends body lo hi i) \<Longrightarrow> e \<le> n"
proof (induction hi arbitrary: lo i)
  case 0
  then show ?case by (simp split: if_splits)
next
  case (Suc hi)
  from Suc.prems(3) consider
      (more) m where "m \<in> set (body i)" "e \<in> set (rep_ends body (lo - 1) hi m)"
    | (stop) "e = i"
    by (auto split: if_splits)
  then show ?case
  proof cases
    case more
    from Suc.prems(1,2) more(1) have mn: "m \<le> n" by simp
    from Suc.prems(1) mn more(2) show ?thesis by (rule Suc.IH)
  next
    case stop
    with Suc.prems(2) show ?thesis by simp
  qed
qed

lemma match_ends_le: "i \<le> length s \<Longrightarrow> e \<in> set (match_ends ic r s i) \<Longrightarrow> e \<le> length s"
proof (induction r arbitrary: i e)
  case (Cat r1 r2)
  from Cat.prems(2) obtain m
    where m: "m \<in> set (match_ends ic r1 s i)" "e \<in> set (match_ends ic r2 s m)"
    by auto
  from Cat.prems(1) m(1) have "m \<le> length s" by (rule Cat.IH(1))
  then show ?case using m(2) by (rule Cat.IH(2))
next
  case (Rep r lo hi)
  from Rep.prems(2)
  have "e \<in> set (rep_ends (match_ends ic r s) lo
                 (case hi of Some n \<Rightarrow> n | None \<Rightarrow> lo + (length s - i)) i)"
    by simp
  with Rep.IH Rep.prems(1) show ?case by (rule rep_ends_le)
qed (auto split: if_splits)

lemma rep_ends_gt:
  assumes body: "\<And>j e. e \<in> set (body j) \<Longrightarrow> j < e"
    and lo: "0 < lo" and e: "e \<in> set (rep_ends body lo hi i)"
  shows "i < e"
proof (cases hi)
  case 0
  with lo e show ?thesis by simp
next
  case (Suc h)
  with lo e obtain m where m: "m \<in> set (body i)" "e \<in> set (rep_ends body (lo - 1) h m)"
    by auto
  from body m(1) have "i < m" .
  moreover have "m \<le> e"
    by (rule rep_ends_ge [OF _ m(2)]) (use body in \<open>simp add: less_imp_le\<close>)
  ultimately show ?thesis by simp
qed

lemma consuming_gt: "consuming r \<Longrightarrow> e \<in> set (match_ends ic r s i) \<Longrightarrow> i < e"
proof (induction r arbitrary: i e)
  case (Cat r1 r2)
  from Cat.prems(2) obtain m
    where m: "m \<in> set (match_ends ic r1 s i)" "e \<in> set (match_ends ic r2 s m)"
    by auto
  from m have le: "i \<le> m" "m \<le> e" by (simp_all add: match_ends_ge)
  from Cat.prems(1) consider "consuming r1" | "consuming r2" by auto
  then show ?case
  proof cases
    case 1
    then have "i < m" using m(1) by (rule Cat.IH(1))
    with le show ?thesis by simp
  next
    case 2
    then have "m < e" using m(2) by (rule Cat.IH(2))
    with le show ?thesis by simp
  qed
next
  case (Rep r lo hi)
  from Rep.prems(1) have lo: "0 < lo" and c: "consuming r" by simp_all
  from Rep.prems(2)
  have "e \<in> set (rep_ends (match_ends ic r s) lo
                 (case hi of Some n \<Rightarrow> n | None \<Rightarrow> lo + (length s - i)) i)"
    by simp
  with Rep.IH [OF c] lo show ?case by (rule rep_ends_gt)
qed (auto split: if_splits)

lemma scan_sound:
  "(st, en) \<in> set (scan ic r s pos must) \<Longrightarrow>
   st \<le> length s \<and> en \<in> set (match_ends ic r s st)"
proof (induction ic r s pos must rule: scan.induct)
  case (1 ic r s pos must)
  show ?case
  proof (cases "length s < pos")
    case True
    with "1.prems" show ?thesis by (simp add: scan.simps [of ic r s pos must])
  next
    case False
    let ?f = "filter (\<lambda>e. \<not> (must \<and> e = pos)) (match_ends ic r s pos)"
    show ?thesis
    proof (cases ?f)
      case Nil
      with False "1.prems" have "(st, en) \<in> set (scan ic r s (pos + 1) False)"
        by (simp add: scan.simps [of ic r s pos must])
      with "1.IH"(1) [OF False Nil] show ?thesis .
    next
      case (Cons e es)
      with False "1.prems"
      consider "(st, en) = (pos, e)" | "(st, en) \<in> set (scan ic r s e (e = pos))"
        by (auto simp: scan.simps [of ic r s pos must])
      then show ?thesis
      proof cases
        case 1
        from Cons have "e \<in> set ?f" by simp
        then have "e \<in> set (match_ends ic r s pos)" by simp
        with 1 False show ?thesis by simp
      next
        case 2
        with "1.IH"(2) [OF False Cons] show ?thesis .
      qed
    qed
  qed
qed

lemma patterns_consuming: "(ty, r) \<in> set patterns \<Longrightarrow> consuming r"
proof -
  have "list_all (\<lambda>(ty, r). consuming r) patterns"
    by code_simp
  then show "(ty, r) \<in> set patterns \<Longrightarrow> consuming r"
    by (auto simp: list_all_iff)
qed

lemma finditer_span:
  assumes "consuming r" and "(st, en) \<in> set (finditer r s)"
  shows "st < en \<and> en \<le> length s"
proof -
  from assms(2) have st: "st \<le> length s" and en: "en \<in> set (match_ends True r s st)"
    by (auto simp: finditer_def dest: scan_sound)
  from assms(1) en have "st < en" by (rule consuming_gt)
  moreover from st en have "en \<le> length s" by (rule match_ends_le)
  ultimately show ?thesis ..
qed

text \<open>
  C9. On the text \<open>''Contact me at jane@example.com or 555-123-4567.''\<close> the
  pattern-based extractor returns exactly two entities: an EMAIL entity with the text
  \<open>''jane@example.com''\<close> and a PHONE entity with the text \<open>''555-123-4567''\<close>, each
  with confidence 0.8, and no entity of another category.
\<close>

theorem pattern_extractor_example:
  "apply_regex_patterns ''Contact me at jane@example.com or 555-123-4567.'' =
     [\<lparr>text = ''jane@example.com'', pii_type = EMAIL, confidence = 0.8,
       start_position = 14, end_position = 30, page_number = None, bounding_box = None\<rparr>,
      \<lparr>text = ''555-123-4567'', pii_type = PHONE, confidence = 0.8,
       start_position = 34, end_position = 46, page_number = None, bounding_box = None\<rparr>]"
  by code_simp

section \<open>Properties of the AI-based extractor\<close>

lemma split_loop_nonempty: "split_loop sep piece s \<noteq> []"
  by (induction sep piece s rule: split_loop.induct) auto

lemma split_loop_two:
  "sep \<noteq> [] \<Longrightarrow> contains sep s \<Longrightarrow> 2 \<le> length (split_loop sep piece s)"
proof (induction sep piece s rule: split_loop.induct)
  case (1 sep piece)
  then show ?case by simp
next
  case (2 sep piece c cs)
  show ?case
  proof (cases "prefix sep (c # cs)")
    case True
    have "split_loop sep [] (drop (length sep) (c # cs)) \<noteq> []"
      by (rule split_loop_nonempty)
    then have "1 \<le> length (split_loop sep [] (drop (length sep) (c # cs)))"
      by (simp add: Suc_le_eq)
    with True "2.prems"(1) show ?thesis by simp
  next
    case False
    with "2.prems" have "contains sep cs" by simp
    with False "2.IH"(2) "2.prems"(1) show ?thesis by simp
  qed
qed

text \<open>
  Removing the code block markers never raises: where a marker occurs, the split at
  the marker has a second piece.
\<close>

lemma strip_code_block_total: "\<exists>body. strip_code_block ai_content = Inr body"
proof -
  have one: "\<exists>inner. list_index (str_split s sep) 1 = Inr inner"
    if "sep \<noteq> []" "contains sep s" for s sep
    using split_loop_two [OF that, of "[]"] by (simp add: list_index_def str_split_def)
  have zero: "\<exists>body. list_index (str_split s sep) 0 = Inr body" for s sep
    using split_loop_nonempty [of sep "[]" s] by (simp add: list_index_def str_split_def)
  show ?thesis
  proof (cases "contains ''```json'' ai_content")
    case True
    from one [OF _ True]
    obtain inner where "list_index (str_split ai_content ''```json'') 1 = Inr inner"
      by auto
    with True zero [of inner "''```''"] show ?thesis
      by (auto simp: strip_code_block_def)
  next
    case False
    show ?thesis
    proof (cases "contains ''```'' ai_content")
      case True
      from one [OF _ True]
      obtain inner where "list_index (str_split ai_content ''```'') 1 = Inr inner"
        by auto
      with True False zero [of inner "''```''"] show ?thesis
        by (auto simp: strip_code_block_def)
    next
      case no_marker: False
      with False show ?thesis by (simp add: strip_code_block_def)
    qed
  qed
qed

text \<open>A run of opening brackets has no whitespace to strip and no code block marker.\<close>

lemma contains_brackets: "sub \<noteq> [] \<Longrightarrow> hd sub \<noteq> CHR ''['' \<Longrightarrow> \<not> contains sub (replicate n (CHR ''[''))"
  by (induction n) (auto simp: prefix_Cons neq_Nil_conv)

lemma str_strip_brackets: "str_strip (replicate n (CHR ''['')) = replicate n (CHR ''['')"
proof -
  have ns: "\<not> is_space (CHR ''['')"
    by code_simp
  show ?thesis
    by (simp add: str_strip_def ns)
qed

lemma strip_brackets:
  "strip_code_block (str_strip (replicate n (CHR ''[''))) = Inr (replicate n (CHR ''['')) "
  by (simp add: str_strip_brackets strip_code_block_def contains_brackets)

lemma loads_sample_brackets:
  "loads_sample (replicate 1200 (CHR ''['')) = LoadsRaised RecursionError"
proof -
  have "length (replicate 1200 (CHR ''['')) \<noteq> length ''[]''"
    by simp
  then have "replicate 1200 (CHR ''['') \<noteq> ''[]''"
    by (metis (no_types))
  then show ?thesis
    by (simp add: loads_sample_def)
qed

text \<open>
  C7, as the code has it. The content of the chat completion, stripped of whitespace
  and of its code block markers, is a string \<open>body\<close> (removing the markers does not
  raise). If \<^verbatim>\<open>json.loads\<close> rejects \<open>body\<close> with \<^verbatim>\<open>json.JSONDecodeError\<close>, the
  AI-based extractor returns the empty sequence of entities and raises nothing, and the
  pipeline goes on with the detections of the pattern-based extractor alone. If
  \<^verbatim>\<open>json.loads\<close> raises an exception of another class, the extractor raises it.
\<close>

theorem decode_error_gives_empty:
  "\<exists>body. strip_code_block (str_strip content) = Inr body \<and>
     (json_loads body = JSONDecodeError \<longrightarrow>
        detect_pii_with_ai json_loads content = Returns [] \<and>
        unique_entities json_loads content text_content =
          Returns (deduplicate (apply_regex_patterns text_content))) \<and>
     (json_loads body = LoadsRaised e \<longrightarrow>
        detect_pii_with_ai json_loads content = Raises e)"
proof -
  from strip_code_block_total
  obtain body where "strip_code_block (str_strip content) = Inr body"
    by blast
  then show ?thesis
    by (auto simp: detect_pii_with_ai_def unique_entities_def merge_entities_def)
qed

theorem decode_error_gives_empty_witness:
  "strip_code_block (str_strip ''```json not json ```'') = Inr '' not json '' \<and>
   loads_sample '' not json '' = JSONDecodeError \<and>
   detect_pii_with_ai loads_sample ''```json not json ```'' = Returns [] \<and>
   unique_entities loads_sample ''```json not json ```'' example_text =
     Returns [example_ssn, example_phone] \<and>
   strip_code_block (str_strip (replicate 1200 (CHR ''[''))) = Inr (replicate 1200 (CHR ''['')) \<and>
   loads_sample (replicate 1200 (CHR ''['')) = LoadsRaised RecursionError \<and>
   detect_pii_with_ai loads_sample (replicate 1200 (CHR ''['')) = Raises RecursionError"
proof -
  have b: "strip_code_block (str_strip ''```json not json ```'') = Inr '' not json ''"
    by code_simp
  have n: "loads_sample '' not json '' = JSONDecodeError"
    by code_simp
  have d: "deduplicate (apply_regex_patterns example_text) = [example_ssn, example_phone]"
    by code_simp
  have b': "strip_code_block (str_strip (replicate 1200 (CHR ''[''))) =
              Inr (replicate 1200 (CHR ''[''))"
    by (rule strip_brackets)
  have n': "loads_sample (replicate 1200 (CHR ''['')) = LoadsRaised RecursionError"
    by (rule loads_sample_brackets)
  from decode_error_gives_empty
         [of "''```json not json ```''" loads_sample example_text RecursionError] b n d
  have 1: "detect_pii_with_ai loads_sample ''```json not json ```'' = Returns [] \<and>
           unique_entities loads_sample ''```json not json ```'' example_text =
             Returns [example_ssn, example_phone]"
    by auto
  from decode_error_gives_empty
         [of "replicate 1200 (CHR ''['')" loads_sample example_text RecursionError] b' n'
  have 2: "detect_pii_with_ai loads_sample (replicate 1200 (CHR ''['')) = Raises RecursionError"
    by auto
  from b n 1 b' n' 2 show ?thesis by blast
qed

text \<open>
  C7 as stated fails: a body of 1200 opening brackets cannot be parsed as JSON, but
  \<^verbatim>\<open>json.loads\<close> raises \<^verbatim>\<open>RecursionError\<close> on it, which the handler for
  \<^verbatim>\<open>json.JSONDecodeError\<close> does not catch. The extractor raises and returns no
  sequence.
\<close>

theorem unparsable_body_raises:
  "strip_code_block (str_strip (replicate 1200 (CHR ''[''))) = Inr (replicate 1200 (CHR ''['')) \<and>
   loads_sample (replicate 1200 (CHR ''['')) = LoadsRaised RecursionError \<and>
   detect_pii_with_ai loads_sample (replicate 1200 (CHR ''['')) = Raises RecursionError \<and>
   detect_pii_with_ai loads_sample (replicate 1200 (CHR ''['')) \<noteq> Returns []"
proof -
  have b: "strip_code_block (str_strip (replicate 1200 (CHR ''[''))) =
             Inr (replicate 1200 (CHR ''[''))"
    by (rule strip_brackets)
  have n: "loads_sample (replicate 1200 (CHR ''['')) = LoadsRaised RecursionError"
    by (rule loads_sample_brackets)
  from b n
  have "detect_pii_with_ai loads_sample (replicate 1200 (CHR ''['')) = Raises RecursionError"
    by (simp add: detect_pii_with_ai_def)
  with b n show ?thesis by simp
qed

text \<open>
  C8, on the code. The prompt asks for \<^verbatim>\<open>pii_type\<close> to be one of the member names
  (SSN, EMAIL, PHONE, ...), but \<^verbatim>\<open>PIIType(item["pii_type"])\<close> looks a member up by its
  value (\<open>''Email Address''\<close>, ...). A well-formed response with a single item of
  the known type EMAIL, written as the prompt asks, is therefore parsed into no entity
  at all: the item is discarded like one of an unknown type.
\<close>

theorem known_type_name_is_discarded:
  "entities_of_pii_data (JArray [ai_item ''jane@example.com'' ''EMAIL'' 0.95 14 30]) = Returns []"
  by code_simp

text \<open>Of the twelve member names, only URL is also a member's value.\<close>

lemma names_accepted_by_PIIType_of:
  "filter (\<lambda>t. PIIType_of (JString (pii_name t)) \<noteq> None) all_pii_types = [URL]"
  by code_simp

text \<open>
  What the loop does with items that carry the five fields with values of the
  annotated types: it keeps exactly those whose \<^verbatim>\<open>pii_type\<close> is the value of a member,
  in order, and raises nothing.
\<close>

lemma entity_of_item_ai_item:
  "entity_of_item (ai_item t ty c s n) =
     (case entity_of_fields (t, ty, c, s, n) of None \<Rightarrow> Skipped | Some e \<Rightarrow> Built e)"
  by (simp add: entity_of_item_def ai_item_def make_entity_def entity_of_fields_def
      split: option.splits)

lemma convert_loop_ai_items:
  "convert_loop (map (\<lambda>(t, ty, c, s, n). ai_item t ty c s n) fs) =
     Returns (List.map_filter entity_of_fields fs)"
proof (induction fs)
  case Nil
  then show ?case by (simp add: List.map_filter_simps)
next
  case (Cons f fs)
  obtain t ty c s n where f: "f = (t, ty, c, s, n)" by (cases f)
  show ?case
    by (cases "entity_of_fields (t, ty, c, s, n)")
      (simp_all add: f Cons.IH entity_of_item_ai_item List.map_filter_simps)
qed

section \<open>Offsets of the extracted entities\<close>

lemma as_int_JInt: "as_int j = Some i \<Longrightarrow> j = JInt i"
  by (cases j) simp_all

lemma entity_of_item_offsets:
  assumes "entity_of_item item = Built e"
  shows "subscript item ''start_position'' = Inr (JInt (start_position e)) \<and>
         subscript item ''end_position'' = Inr (JInt (end_position e))"
proof -
  from assms obtain ty t c s n
    where s: "subscript item ''start_position'' = Inr s"
      and n: "subscript item ''end_position'' = Inr n"
      and m: "make_entity ty t c s n = Built e"
    by (auto simp: entity_of_item_def split: sum.splits option.splits)
  from m obtain s' n' where "as_int s = Some s'" "as_int n = Some n'"
    and "start_position e = s'" "end_position e = n'"
    by (auto simp: make_entity_def split: option.splits)
  with s n show ?thesis by (auto dest: as_int_JInt)
qed

lemma pattern_entity_offsets:
  assumes "e \<in> set (apply_regex_patterns txt)"
  shows "valid_offsets txt e \<and>
         text e = take (nat (end_position e - start_position e))
                    (drop (nat (start_position e)) txt)"
proof -
  from assms obtain ty r st en where p: "(ty, r) \<in> set patterns"
    and m: "(st, en) \<in> set (finditer r txt)"
    and e: "e = \<lparr>text = take (en - st) (drop st txt), pii_type = ty, confidence = 0.8,
                  start_position = int st, end_position = int en,
                  page_number = None, bounding_box = None\<rparr>"
    by (auto simp: apply_regex_patterns_def entities_of_pattern_def)
  from p have "consuming r" by (rule patterns_consuming)
  then have "st < en \<and> en \<le> length txt" using m by (rule finditer_span)
  with e show ?thesis
    by (simp add: valid_offsets_def nat_diff_distrib')
qed

text \<open>
  C6, as the code has it. Every entity that the pattern-based extractor produces for
  a text has offsets \<open>0 \<le> start < end \<le> len(text)\<close>, and its \<^verbatim>\<open>text\<close> field is the
  slice of the original text between them. An entity that the AI-based extractor
  builds from a response item has the \<^verbatim>\<open>start_position\<close> and \<^verbatim>\<open>end_position\<close> of
  the item, copied as they are and not compared with the text.
\<close>

theorem extractor_offsets:
  "(e \<in> set (apply_regex_patterns txt) \<longrightarrow>
      valid_offsets txt e \<and>
      text e = take (nat (end_position e - start_position e))
                 (drop (nat (start_position e)) txt)) \<and>
   (entity_of_item item = Built e' \<longrightarrow>
      subscript item ''start_position'' = Inr (JInt (start_position e')) \<and>
      subscript item ''end_position'' = Inr (JInt (end_position e')))"
  using pattern_entity_offsets entity_of_item_offsets by blast

theorem extractor_offsets_witness:
  "example_phone \<in> set (apply_regex_patterns example_text) \<and>
   valid_offsets example_text example_phone \<and>
   text example_phone = ''555-123-4567'' \<and>
   entity_of_item (ai_item ''555-123-4567'' ''Phone Number'' 0.8 16 28) = Built example_phone \<and>
   subscript (ai_item ''555-123-4567'' ''Phone Number'' 0.8 16 28) ''start_position'' =
     Inr (JInt 16) \<and>
   subscript (ai_item ''555-123-4567'' ''Phone Number'' 0.8 16 28) ''end_position'' =
     Inr (JInt 28)"
proof -
  have "apply_regex_patterns example_text = [example_ssn, example_phone]"
    by code_simp
  then have m: "example_phone \<in> set (apply_regex_patterns example_text)"
    by simp
  have t: "take (nat (end_position example_phone - start_position example_phone))
          (drop (nat (start_position example_phone)) example_text) = ''555-123-4567''"
    by (simp add: example_phone_def example_text_def)
  have b: "entity_of_item (ai_item ''555-123-4567'' ''Phone Number'' 0.8 16 28) =
             Built example_phone"
    by code_simp
  have o: "start_position example_phone = 16" "end_position example_phone = 28"
    by (simp_all add: example_phone_def)
  from extractor_offsets
    [of example_phone example_text "ai_item ''555-123-4567'' ''Phone Number'' 0.8 16 28"
        example_phone]
    m t b o
  show ?thesis by simp
qed

text \<open>
  C6 as stated fails for the AI-based extractor: a response item with start 7 and
  end 3 gives an entity with these offsets, which are not valid for the
  five-character text \<open>''hello''\<close>.
\<close>

theorem ai_entity_offsets_unchecked:
  "entities_of_pii_data (JArray [ai_item ''hello'' ''Email Address'' 0.9 7 3]) =
     Returns [\<lparr>text = ''hello'', pii_type = EMAIL, confidence = 0.9, start_position = 7,
               end_position = 3, page_number = None, bounding_box = None\<rparr>] \<and>
   \<not> valid_offsets ''hello''
        \<lparr>text = ''hello'', pii_type = EMAIL, confidence = 0.9, start_position = 7,
         end_position = 3, page_number = None, bounding_box = None\<rparr>"
proof
  show "entities_of_pii_data (JArray [ai_item ''hello'' ''Email Address'' 0.9 7 3]) =
     Returns [\<lparr>text = ''hello'', pii_type = EMAIL, confidence = 0.9, start_position = 7,
               end_position = 3, page_number = None, bounding_box = None\<rparr>]"
    by code_simp
  show "\<not> valid_offsets ''hello''
        \<lparr>text = ''hello'', pii_type = EMAIL, confidence = 0.9, start_position = 7,
         end_position = 3, page_number = None, bounding_box = None\<rparr>"
    by (simp add: valid_offsets_def)
qed

section \<open>Properties of the merger\<close>

lemma near_sym: "near a b \<longleftrightarrow> near b a"
  by (auto simp: near_def)

lemma far_iff_not_near: "far a b \<longleftrightarrow> \<not> near a b"
  by (auto simp: far_def near_def)

lemma is_duplicate_iff: "is_duplicate e acc \<longleftrightarrow> (\<exists>x \<in> set acc. near e x)"
  by (induction acc) auto

lemma dedup_loop_snoc:
  "dedup_loop (es @ [e]) acc =
     (if is_duplicate e (dedup_loop es acc) then dedup_loop es acc
      else dedup_loop es acc @ [e])"
  by (induction es arbitrary: acc) auto

lemma pairwise_far_sorted_wrt: "pairwise_far es \<longleftrightarrow> sorted_wrt far es"
proof
  assume "pairwise_far es"
  then show "sorted_wrt far es"
    by (auto simp: pairwise_far_def sorted_wrt_iff_nth_less)
next
  assume s: "sorted_wrt far es"
  have sym: "far a b \<Longrightarrow> far b a" for a b
    by (auto simp: far_def)
  show "pairwise_far es"
    unfolding pairwise_far_def
  proof (intro ballI impI)
    fix i j
    assume ij: "i \<in> {..<length es}" "j \<in> {..<length es}" "i \<noteq> j"
    show "far (es ! i) (es ! j)"
    proof (cases "i < j")
      case True
      with s ij show ?thesis by (simp add: sorted_wrt_iff_nth_less)
    next
      case False
      with ij have "j < i" by simp
      with s ij have "far (es ! j) (es ! i)" by (simp add: sorted_wrt_iff_nth_less)
      then show ?thesis by (rule sym)
    qed
  qed
qed

lemma dedup_loop_far: "sorted_wrt far acc \<Longrightarrow> sorted_wrt far (dedup_loop es acc)"
proof (induction es arbitrary: acc)
  case Nil
  then show ?case by simp
next
  case (Cons e es)
  show ?case
  proof (cases "is_duplicate e acc")
    case True
    with Cons show ?thesis by simp
  next
    case False
    then have "\<forall>x \<in> set acc. far x e"
      using near_sym by (auto simp: is_duplicate_iff far_iff_not_near)
    with Cons.prems have "sorted_wrt far (acc @ [e])"
      by (simp add: sorted_wrt_append)
    with Cons.IH False show ?thesis by simp
  qed
qed

lemma dedup_loop_fixed: "sorted_wrt far (acc @ ys) \<Longrightarrow> dedup_loop ys acc = acc @ ys"
proof (induction ys arbitrary: acc)
  case Nil
  then show ?case by simp
next
  case (Cons y ys)
  from Cons.prems have "\<forall>x \<in> set acc. far x y"
    by (auto simp: sorted_wrt_append)
  then have nd: "\<not> is_duplicate y acc"
    using near_sym by (auto simp: is_duplicate_iff far_iff_not_near)
  from Cons.prems have "sorted_wrt far ((acc @ [y]) @ ys)" by simp
  then have "dedup_loop ys (acc @ [y]) = (acc @ [y]) @ ys" by (rule Cons.IH)
  with nd show ?case by simp
qed

text \<open>
  C3. The merger keeps the first-seen entity of every group of near entities: with the
  input processed in order, the candidate \<open>e\<close> that follows the candidates \<open>es\<close> is
  discarded exactly when an entity accepted from \<open>es\<close> has a start offset and an end
  offset both less than 5 away from its own, and is appended to the accepted ones
  otherwise. Of two entities at [10,20) and [12,22) the first-seen alone survives; two
  entities at [10,20) and [30,40) both survive.
\<close>

theorem merger_first_seen_wins:
  "deduplicate (es @ [e]) =
     (if (\<exists>x \<in> set (deduplicate es).
            \<bar>start_position e - start_position x\<bar> < 5 \<and>
            \<bar>end_position e - end_position x\<bar> < 5)
      then deduplicate es else deduplicate es @ [e])
   \<and> merge_entities [a\<lparr>start_position := 10, end_position := 20\<rparr>]
         [b\<lparr>start_position := 12, end_position := 22\<rparr>]
       = [a\<lparr>start_position := 10, end_position := 20\<rparr>]
   \<and> merge_entities [a\<lparr>start_position := 10, end_position := 20\<rparr>]
         [c\<lparr>start_position := 30, end_position := 40\<rparr>]
       = [a\<lparr>start_position := 10, end_position := 20\<rparr>,
          c\<lparr>start_position := 30, end_position := 40\<rparr>]"
proof (intro conjI)
  show "deduplicate (es @ [e]) =
     (if (\<exists>x \<in> set (deduplicate es).
            \<bar>start_position e - start_position x\<bar> < 5 \<and>
            \<bar>end_position e - end_position x\<bar> < 5)
      then deduplicate es else deduplicate es @ [e])"
    unfolding deduplicate_def dedup_loop_snoc is_duplicate_iff near_def by simp
qed (simp_all add: merge_entities_def deduplicate_def near_def)

theorem merger_first_seen_wins_witness:
  "deduplicate ([entity_at 10 20] @ [entity_at 12 22]) = [entity_at 10 20] \<and>
   merge_entities [entity_at 10 20] [entity_at 12 22] = [entity_at 10 20] \<and>
   merge_entities [entity_at 10 20] [entity_at 30 40] = [entity_at 10 20, entity_at 30 40]"
  using merger_first_seen_wins
    [of "[entity_at 10 20]" "entity_at 12 22" "entity_at 10 20" "entity_at 12 22"
        "entity_at 30 40"]
  by (simp add: deduplicate_def near_def entity_at_def)

text \<open>
  C10. The deduplication filter is idempotent: in its output any two entities at
  different places differ by at least 5 in start offset or by at least 5 in end offset,
  and the filter returns its own output unchanged.
\<close>

theorem deduplicate_idempotent:
  "pairwise_far (deduplicate es) \<and> deduplicate (deduplicate es) = deduplicate es"
proof
  have f: "sorted_wrt far (deduplicate es)"
    unfolding deduplicate_def by (rule dedup_loop_far) simp
  then show "pairwise_far (deduplicate es)"
    by (simp add: pairwise_far_sorted_wrt)
  from f have "sorted_wrt far ([] @ deduplicate es)" by simp
  then have "dedup_loop (deduplicate es) [] = [] @ deduplicate es"
    by (rule dedup_loop_fixed)
  then show "deduplicate (deduplicate es) = deduplicate es"
    by (simp add: deduplicate_def)
qed


theorem deduplicate_idempotent_witness:
  "deduplicate [entity_at 10 20, entity_at 12 22, entity_at 30 40] =
     [entity_at 10 20, entity_at 30 40] \<and>
   pairwise_far [entity_at 10 20, entity_at 30 40] \<and>
   deduplicate [entity_at 10 20, entity_at 30 40] = [entity_at 10 20, entity_at 30 40]"
proof -
  have d: "deduplicate [entity_at 10 20, entity_at 12 22, entity_at 30 40] =
             [entity_at 10 20, entity_at 30 40]"
    by (simp add: deduplicate_def near_def entity_at_def)
  from deduplicate_idempotent [of "[entity_at 10 20, entity_at 12 22, entity_at 30 40]"] d
  show ?thesis by simp
qed

section \<open>Properties of the redactor\<close>

lemma ordered_within_snoc:
  "ordered_within lo (es @ [e]) hi \<longleftrightarrow>
     ordered_within lo es (nat (start_position e)) \<and> 0 \<le> start_position e \<and>
     start_position e < end_position e \<and> nat (end_position e) \<le> hi"
  by (induction es arbitrary: lo) auto

lemma between_snoc:
  "ordered_within lo (es @ [e]) hi \<Longrightarrow>
   between t lo (es @ [e]) hi =
     between t lo es (nat (start_position e)) @ placeholder e @
     take (hi - nat (end_position e)) (drop (nat (end_position e)) t)"
  by (induction es arbitrary: lo) auto

lemma redact_loop_rev:
  "ordered_within 0 asc b \<Longrightarrow> b \<le> length t \<Longrightarrow>
   redact_loop (rev asc) (take b t @ r) = between t 0 asc b @ r"
proof (induction asc arbitrary: b r rule: rev_induct)
  case Nil
  then show ?case by simp
next
  case (snoc e as)
  let ?s = "nat (start_position e)" and ?n = "nat (end_position e)"
  from snoc.prems(1) have ow: "ordered_within 0 as ?s" and s0: "0 \<le> start_position e"
    and se: "start_position e < end_position e" and nb: "?n \<le> b"
    by (simp_all add: ordered_within_snoc)
  from se s0 nb snoc.prems(2) have sb: "?s < ?n" "?s \<le> b" "?s \<le> length t" by simp_all
  have a: "slice_to (take b t @ r) (start_position e) = take ?s t"
    using s0 sb snoc.prems(2) by (simp add: slice_to_def min_def)
  have c: "slice_from (take b t @ r) (end_position e) = take (b - ?n) (drop ?n t) @ r"
    using s0 se nb snoc.prems(2) by (simp add: slice_from_def drop_take)
  have "redact_loop (rev (as @ [e])) (take b t @ r) =
        redact_loop (rev as) (take ?s t @ (placeholder e @ take (b - ?n) (drop ?n t) @ r))"
    by (simp add: a c)
  also have "\<dots> = between t 0 as ?s @ (placeholder e @ take (b - ?n) (drop ?n t) @ r)"
    by (rule snoc.IH [OF ow sb(3)])
  also have "\<dots> = between t 0 (as @ [e]) b @ r"
    using snoc.prems(1) by (simp add: between_snoc)
  finally show ?case .
qed

lemma sorted_ordered_within:
  "sorted (map start_position es) \<Longrightarrow> distinct es \<Longrightarrow>
   \<forall>a \<in> set es. valid_offsets t a \<and> int lo \<le> start_position a \<Longrightarrow>
   \<forall>a \<in> set es. \<forall>b \<in> set es. a \<noteq> b \<longrightarrow> disjoint_spans a b \<Longrightarrow>
   lo \<le> length t \<Longrightarrow>
   ordered_within lo es (length t)"
proof (induction es arbitrary: lo)
  case Nil
  then show ?case by simp
next
  case (Cons e es)
  have ve: "valid_offsets t e" and le: "int lo \<le> start_position e"
    using Cons.prems(3) by simp_all
  have after: "int (nat (end_position e)) \<le> start_position x" if x: "x \<in> set es" for x
  proof -
    from x Cons.prems(2) have "x \<noteq> e" by auto
    with x Cons.prems(4) have d: "disjoint_spans e x" by simp
    from x Cons.prems(1) have "start_position e \<le> start_position x" by simp
    moreover from x Cons.prems(3) have "valid_offsets t x" by simp
    ultimately show ?thesis
      using d ve by (auto simp: disjoint_spans_def valid_offsets_def)
  qed
  have "ordered_within (nat (end_position e)) es (length t)"
  proof (rule Cons.IH)
    show "sorted (map start_position es)" using Cons.prems(1) by simp
    show "distinct es" using Cons.prems(2) by simp
    show "\<forall>a \<in> set es. valid_offsets t a \<and> int (nat (end_position e)) \<le> start_position a"
      using Cons.prems(3) after by simp
    show "\<forall>a \<in> set es. \<forall>b \<in> set es. a \<noteq> b \<longrightarrow> disjoint_spans a b"
      using Cons.prems(4) by simp
    show "nat (end_position e) \<le> length t"
      using ve unfolding valid_offsets_def by linarith
  qed
  with ve le show ?case by (simp add: valid_offsets_def)
qed

lemma non_overlapping_distinct:
  assumes "non_overlapping es" and "\<forall>e \<in> set es. valid_offsets t e"
  shows "distinct es \<and> (\<forall>a \<in> set es. \<forall>b \<in> set es. a \<noteq> b \<longrightarrow> disjoint_spans a b)
         \<and> inj_on start_position (set es)"
proof -
  have irr: "\<not> disjoint_spans a a" if "a \<in> set es" for a
    using that assms(2) by (auto simp: disjoint_spans_def valid_offsets_def)
  have d: "distinct es"
    unfolding distinct_conv_nth
  proof (intro allI impI)
    fix i j assume ij: "i < length es" "j < length es" "i \<noteq> j"
    with assms(1) have "disjoint_spans (es ! i) (es ! j)"
      by (simp add: non_overlapping_def)
    moreover from ij have "\<not> disjoint_spans (es ! i) (es ! i)"
      by (intro irr nth_mem)
    ultimately show "es ! i \<noteq> es ! j" by auto
  qed
  have p: "disjoint_spans a b" if "a \<in> set es" "b \<in> set es" "a \<noteq> b" for a b
  proof -
    from that obtain i j where ij: "i < length es" "j < length es" "es ! i = a" "es ! j = b"
      by (metis in_set_conv_nth)
    with that(3) have "i \<noteq> j" by auto
    with assms(1) ij(1,2) have "disjoint_spans (es ! i) (es ! j)"
      by (simp add: non_overlapping_def)
    with ij show ?thesis by simp
  qed
  have "inj_on start_position (set es)"
  proof (rule inj_onI)
    fix a b assume ab: "a \<in> set es" "b \<in> set es" "start_position a = start_position b"
    show "a = b"
    proof (rule ccontr)
      assume "a \<noteq> b"
      with ab p have "disjoint_spans a b" by simp
      with ab assms(2) show False
        by (auto simp: disjoint_spans_def valid_offsets_def)
    qed
  qed
  with d p show ?thesis by blast
qed

text \<open>
  C2. The redactor goes through the entities in descending order of their start
  offsets and replaces each span by the bracketed placeholder that names the category.
  For every text and every sequence of pairwise non-overlapping entities whose offsets
  are valid for the text, the result is therefore the original text in which each span
  is replaced by its placeholder: every character outside all spans is kept,
  unmodified and in order, between the placeholders.
\<close>

theorem redaction_keeps_outside_text:
  assumes valid: "\<forall>e \<in> set es. valid_offsets t e"
    and disj: "non_overlapping es"
  shows "sorted (rev (map start_position (sorted_reverse start_position es))) \<and>
         create_redacted_text t es = keep_outside t (sort_key start_position es)"
proof
  show "sorted (rev (map start_position (sorted_reverse start_position es)))"
    by (simp add: sorted_reverse_def rev_map [symmetric])
next
  let ?asc = "sort_key start_position es"
  from non_overlapping_distinct [OF disj valid]
  have d: "distinct es" and p: "\<forall>a \<in> set es. \<forall>b \<in> set es. a \<noteq> b \<longrightarrow> disjoint_spans a b"
    and inj: "inj_on start_position (set es)" by simp_all
  have "sort_key start_position (rev es) = ?asc"
    by (rule sort_key_inj_key_eq) (use inj in simp_all)
  then have desc: "sorted_reverse start_position es = rev ?asc"
    by (simp add: sorted_reverse_def)
  have v0: "\<forall>a \<in> set ?asc. valid_offsets t a \<and> int 0 \<le> start_position a"
    using valid by (simp add: valid_offsets_def)
  have "ordered_within 0 ?asc (length t)"
    by (rule sorted_ordered_within [OF _ _ v0]) (use d p in simp_all)
  then have "redact_loop (rev ?asc) (take (length t) t @ []) = between t 0 ?asc (length t) @ []"
    by (rule redact_loop_rev) simp
  then show "create_redacted_text t es = keep_outside t (sort_key start_position es)"
    by (simp add: create_redacted_text_def desc keep_outside_def)
qed

theorem redaction_keeps_outside_text_witness:
  "list_all (valid_offsets example_text) [example_phone, example_ssn] \<and>
   non_overlapping [example_phone, example_ssn] \<and>
   create_redacted_text example_text [example_phone, example_ssn] =
     keep_outside example_text [example_ssn, example_phone] \<and>
   create_redacted_text example_text [example_phone, example_ssn] =
     ''A [REDACTED-SSN] B [REDACTED-PHONE] C''"
proof -
  have v: "\<forall>e \<in> set [example_phone, example_ssn]. valid_offsets example_text e"
    by (simp add: valid_offsets_def example_phone_def example_ssn_def example_text_def)
  have d: "non_overlapping [example_phone, example_ssn]"
    by (simp add: non_overlapping_def disjoint_spans_def example_phone_def example_ssn_def
        lessThan_Suc)
  have s: "sort_key start_position [example_phone, example_ssn] = [example_ssn, example_phone]"
    by (simp add: example_phone_def example_ssn_def)
  have r: "keep_outside example_text [example_ssn, example_phone] =
             ''A [REDACTED-SSN] B [REDACTED-PHONE] C''"
    by code_simp
  from redaction_keeps_outside_text [OF v d] v d s r show ?thesis
    by simp
qed


section \<open>Properties of the report generator\<close>

lemma same_but_text_report_entry:
  "b\<lparr>text := text a\<rparr> = a \<Longrightarrow> report_entry_of b = report_entry_of a"
  by (cases a, cases b) (simp add: report_entry_of_def)

lemma sum_dict_set:
  "sum_list (map snd (dict_set d k (Suc (dict_get d k 0)))) = Suc (sum_list (map snd d))"
  by (induction d) auto

lemma sum_count_by_type:
  "sum_list (map snd (count_by_type es summary)) = sum_list (map snd summary) + length es"
  by (induction es arbitrary: summary) (simp_all add: sum_dict_set Let_def)

lemma keys_dict_set: "fst ` set (dict_set d k v) = insert k (fst ` set d)"
proof (induction d)
  case Nil
  then show ?case by simp
next
  case (Cons p d)
  obtain k' v' where p: "p = (k', v')" by (cases p)
  show ?case
  proof (cases "k' = k")
    case True
    with p show ?thesis by simp
  next
    case False
    with p Cons.IH show ?thesis by (simp add: insert_commute)
  qed
qed

lemma distinct_dict_set: "distinct (map fst d) \<Longrightarrow> distinct (map fst (dict_set d k v))"
proof (induction d)
  case Nil
  then show ?case by simp
next
  case (Cons p d)
  obtain k' v' where p: "p = (k', v')" by (cases p)
  show ?case
  proof (cases "k' = k")
    case True
    with Cons.prems p show ?thesis by simp
  next
    case False
    with Cons p show ?thesis by (simp add: keys_dict_set)
  qed
qed

lemma distinct_count_by_type:
  "distinct (map fst summary) \<Longrightarrow> distinct (map fst (count_by_type es summary))"
  by (induction es arbitrary: summary) (simp_all add: distinct_dict_set Let_def)

lemma count_by_type_cong:
  "list_all2 same_but_text es es' \<Longrightarrow> count_by_type es summary = count_by_type es' summary"
proof (induction es es' arbitrary: summary rule: list_all2_induct)
  case Nil
  then show ?case by simp
next
  case (Cons a as b bs)
  from Cons.hyps(1) have "pii_type b = pii_type a"
    by (cases a, cases b) (simp add: same_but_text_def)
  with Cons.IH show ?case by simp
qed


text \<open>The keys of \<^verbatim>\<open>by_type\<close> are distinct, as the keys of a dictionary are.\<close>

lemma by_type_keys_distinct: "distinct (map fst (by_type (generate_redaction_report es)))"
  by (simp add: generate_redaction_report_def Let_def distinct_count_by_type)

text \<open>
  C4. For every sequence of entities, \<^verbatim>\<open>total_redactions\<close> of the report is the length
  of the sequence, and the counts of \<^verbatim>\<open>by_type\<close> add up to \<^verbatim>\<open>total_redactions\<close>.
\<close>

theorem report_counts:
  "total_redactions (generate_redaction_report es) = length es \<and>
   sum_list (map snd (by_type (generate_redaction_report es)))
     = total_redactions (generate_redaction_report es)"
  by (simp add: generate_redaction_report_def sum_count_by_type Let_def)

theorem report_counts_witness:
  "total_redactions (generate_redaction_report [example_ssn, example_phone, example_ssn]) = 3 \<and>
   by_type (generate_redaction_report [example_ssn, example_phone, example_ssn]) =
     [(''Social Security Number'', 2), (''Phone Number'', 1)] \<and>
   sum_list (map snd (by_type (generate_redaction_report
     [example_ssn, example_phone, example_ssn]))) = 3"
proof -
  have b: "by_type (generate_redaction_report [example_ssn, example_phone, example_ssn]) =
     [(''Social Security Number'', 2), (''Phone Number'', 1)]"
    by code_simp
  from report_counts [of "[example_ssn, example_phone, example_ssn]"] b
  show ?thesis by simp
qed

text \<open>
  C1. The report does not depend on the \<^verbatim>\<open>text\<close> of any entity: two sequences of
  entities that differ at most in their \<^verbatim>\<open>text\<close> fields have the same report, and
  every entry of the per-entity listing carries the fixed marker \<open>''***REDACTED***''\<close>
  beside the category, the confidence and the position range.
\<close>

theorem report_hides_text:
  "list_all2 same_but_text es es' \<Longrightarrow>
   generate_redaction_report es' = generate_redaction_report es \<and>
   list_all (\<lambda>r. entry_text r = ''***REDACTED***'') (entities (generate_redaction_report es))"
proof
  assume a: "list_all2 same_but_text es es'"
  then have len: "length es' = length es"
    by (simp add: list_all2_lengthD)
  from a have cnt: "count_by_type es' [] = count_by_type es []"
    by (simp add: count_by_type_cong)
  from a have conf: "map confidence es' = map confidence es"
  proof (induction es es' rule: list_all2_induct)
    case Nil
    then show ?case by simp
  next
    case (Cons a as b bs)
    from Cons.hyps(1) have "confidence b = confidence a"
      by (cases a, cases b) (simp add: same_but_text_def)
    with Cons.IH show ?case by simp
  qed
  from a have ent: "map report_entry_of es' = map report_entry_of es"
  proof (induction es es' rule: list_all2_induct)
    case Nil
    then show ?case by simp
  next
    case (Cons a as b bs)
    from Cons.hyps(1) have "report_entry_of b = report_entry_of a"
      by (simp add: same_but_text_def same_but_text_report_entry)
    with Cons.IH show ?case by simp
  qed
  show "generate_redaction_report es' = generate_redaction_report es"
    unfolding generate_redaction_report_def len cnt conf ent by (rule refl)
next
  show "list_all (\<lambda>r. entry_text r = ''***REDACTED***'') (entities (generate_redaction_report es))"
    by (simp add: generate_redaction_report_def Let_def list_all_iff report_entry_of_def)
qed


theorem report_hides_text_witness:
  "list_all2 same_but_text [example_ssn] [example_ssn\<lparr>text := ''000-00-0000''\<rparr>] \<and>
   generate_redaction_report [example_ssn\<lparr>text := ''000-00-0000''\<rparr>] =
     generate_redaction_report [example_ssn] \<and>
   entities (generate_redaction_report [example_ssn]) =
     [\<lparr>entry_text = ''***REDACTED***'', entry_type = ''Social Security Number'',
       entry_confidence = 0.8, entry_position = ''2-13''\<rparr>]"
proof -
  have h: "list_all2 same_but_text [example_ssn] [example_ssn\<lparr>text := ''000-00-0000''\<rparr>]"
    by (simp add: same_but_text_def example_ssn_def)
  have e: "entities (generate_redaction_report [example_ssn]) =
     [\<lparr>entry_text = ''***REDACTED***'', entry_type = ''Social Security Number'',
       entry_confidence = 0.8, entry_position = ''2-13''\<rparr>]"
    by code_simp
  from report_hides_text [OF h] h e show ?thesis by simp
qed

section \<open>The average confidence\<close>

text \<open>
  The rounding function is what it is meant to be: \<open>exponent x\<close> is the binary
  exponent of \<open>x\<close> (\<open>2 ^ e \<le> \<bar>x\<bar> < 2 ^ (e + 1)\<close>), and \<open>fl x\<close> is a multiple of the
  unit in the last place of \<open>x\<close> at most half a unit away from \<open>x\<close>.
\<close>

lemma bit_length_nonneg: "0 \<le> bit_length n"
proof (induction n rule: bit_length.induct)
  case (1 n)
  then show ?case by (simp add: bit_length.simps [of n])
qed

lemma bit_length_pos: "0 < n \<Longrightarrow> 0 < bit_length n"
  using bit_length_nonneg [of "n div 2"] by (simp add: bit_length.simps [of n])

lemma bit_length_bounds:
  "0 < n \<Longrightarrow> 2 ^ nat (bit_length n - 1) \<le> n \<and> n < 2 ^ nat (bit_length n)"
proof (induction n rule: bit_length.induct)
  case (1 n)
  show ?case
  proof (cases "n div 2 = 0")
    case True
    with "1.prems" have "n = 1" by presburger
    then show ?thesis
      by (simp add: bit_length.simps [of 1] bit_length.simps [of 0])
  next
    case False
    with "1.prems" have h: "0 < n div 2" by presburger
    let ?b = "bit_length (n div 2)"
    from "1.prems" h "1.IH"
    have ih: "2 ^ nat (?b - 1) \<le> n div 2" "n div 2 < 2 ^ nat ?b"
      by simp_all
    from h have bp: "0 < ?b" by (rule bit_length_pos)
    from "1.prems" have bl: "bit_length n = 1 + ?b"
      by (simp add: bit_length.simps [of n])
    from bp have p: "(2::int) ^ nat ?b = 2 * 2 ^ nat (?b - 1)"
      by (metis Suc_nat_eq_nat_zadd1 add.commute diff_add_cancel diff_ge_0_iff_ge
          int_one_le_iff_zero_less power_Suc)
    have q: "(2::int) ^ nat (1 + ?b) = 2 * 2 ^ nat ?b"
      using bit_length_nonneg [of "n div 2"] by (simp add: nat_add_distrib)
    from ih p have "2 ^ nat ?b \<le> n" by presburger
    moreover from ih q have "n < 2 ^ nat (1 + ?b)" by presburger
    ultimately show ?thesis by (simp add: bl)
  qed
qed

lemma pow2_pos: "0 < pow2 k"
  by (simp add: pow2_def)

lemma pow2_Suc: "pow2 (k + 1) = 2 * pow2 k"
proof (cases "0 \<le> k")
  case True
  then show ?thesis by (simp add: pow2_def nat_add_distrib)
next
  case False
  then have "nat (- k) = Suc (nat (- (k + 1)))" by simp
  then have "(2::rat) ^ nat (- k) = 2 * 2 ^ nat (- (k + 1))" by simp
  with False show ?thesis by (simp add: pow2_def)
qed

lemma pow2_neg: "pow2 (- k) = 1 / pow2 k"
  by (cases "0 \<le> k"; cases "k = 0") (simp_all add: pow2_def)

lemma exponent_ge1:
  assumes "1 \<le> a"
  shows "pow2 (bit_length \<lfloor>a\<rfloor> - 1) \<le> a \<and> a < pow2 (bit_length \<lfloor>a::rat\<rfloor> - 1 + 1)"
proof -
  let ?n = "\<lfloor>a\<rfloor>"
  from assms have n: "0 < ?n" by simp
  from bit_length_bounds [OF n]
  have b: "2 ^ nat (bit_length ?n - 1) \<le> ?n" "?n < 2 ^ nat (bit_length ?n)" by simp_all
  from bit_length_pos [OF n] have bp: "0 \<le> bit_length ?n - 1" "0 \<le> bit_length ?n" by simp_all
  from b(1) have "(of_int (2 ^ nat (bit_length ?n - 1)) :: rat) \<le> of_int ?n"
    by (simp only: of_int_le_iff)
  also have "\<dots> \<le> a" by simp
  finally have lo: "pow2 (bit_length ?n - 1) \<le> a" using bp by (simp add: pow2_def)
  from b(2) have "?n + 1 \<le> 2 ^ nat (bit_length ?n)" by simp
  then have "(of_int (?n + 1) :: rat) \<le> of_int (2 ^ nat (bit_length ?n))"
    by (simp only: of_int_le_iff)
  moreover have "a < of_int (?n + 1)" by linarith
  ultimately have "a < of_int (2 ^ nat (bit_length ?n))" by linarith
  then have hi: "a < pow2 (bit_length ?n - 1 + 1)" using bp by (simp add: pow2_def)
  from lo hi show ?thesis by simp
qed

lemma exponent_bounds:
  assumes "x \<noteq> 0"
  shows "pow2 (exponent x) \<le> \<bar>x\<bar> \<and> \<bar>x\<bar> < pow2 (exponent x + 1)"
proof (cases "1 \<le> \<bar>x\<bar>")
  case True
  then have "exponent x = bit_length \<lfloor>\<bar>x\<bar>\<rfloor> - 1" by (simp add: exponent_def)
  with exponent_ge1 [OF True] show ?thesis by simp
next
  case False
  let ?a = "\<bar>x\<bar>"
  from assms have pos: "0 < ?a" by simp
  from False pos have inv: "1 \<le> 1 / ?a" by simp
  let ?k = "bit_length \<lfloor>1 / ?a\<rfloor> - 1"
  from exponent_ge1 [OF inv]
  have b: "pow2 ?k \<le> 1 / ?a" "1 / ?a < pow2 (?k + 1)" by simp_all
  have kp: "0 < pow2 ?k" and kp1: "0 < pow2 (?k + 1)" by (rule pow2_pos)+
  from b(1) pos have "?a * pow2 ?k \<le> 1" by (simp add: field_simps)
  with kp have "?a \<le> 1 / pow2 ?k" by (simp add: pos_le_divide_eq)
  then have up: "?a \<le> pow2 (- ?k)" by (simp only: pow2_neg)
  from b(2) pos have "1 < ?a * pow2 (?k + 1)" by (simp add: field_simps)
  with kp1 have "1 / pow2 (?k + 1) < ?a" by (simp add: pos_divide_less_eq)
  then have "pow2 (- (?k + 1)) < ?a" by (simp only: pow2_neg)
  moreover have "- (?k + 1) = - ?k - 1" by simp
  ultimately have lo: "pow2 (- ?k - 1) < ?a" by (simp only:)
  show ?thesis
  proof (cases "pow2 (- ?k) \<le> ?a")
    case True
    with False have e: "exponent x = - ?k" by (simp add: exponent_def Let_def)
    from True up have "?a = pow2 (- ?k)" by simp
    moreover have "pow2 (- ?k) < pow2 (- ?k + 1)"
      using pow2_pos [of "- ?k"] by (simp only: pow2_Suc)
    ultimately show ?thesis using e by simp
  next
    case F2: False
    with False have e: "exponent x = - ?k - 1" by (simp add: exponent_def Let_def)
    from F2 have "?a < pow2 (- ?k - 1 + 1)" by simp
    with lo e show ?thesis by simp
  qed
qed

lemma round_half_even_error: "\<bar>of_int (round_half_even x) - x\<bar> \<le> 1 / 2"
proof -
  have "of_int \<lfloor>x\<rfloor> \<le> x" "x < of_int \<lfloor>x\<rfloor> + 1" by linarith+
  then show ?thesis
    by (simp add: round_half_even_def Let_def abs_if) linarith
qed

lemma fl_error:
  "\<bar>fl x - x\<bar> \<le> pow2 (max (exponent x) (- 1022) - 52) / 2"
proof (cases "x = 0")
  case True
  then show ?thesis using pow2_pos [of "max (exponent 0) (- 1022) - 52"] by (simp add: fl_def)
next
  case False
  let ?u = "pow2 (max (exponent x) (- 1022) - 52)"
  have u: "0 < ?u" by (rule pow2_pos)
  from False have "fl x - x = (of_int (round_half_even (x / ?u)) - x / ?u) * ?u"
    using u by (simp add: fl_def Let_def field_simps)
  then have "\<bar>fl x - x\<bar> = \<bar>of_int (round_half_even (x / ?u)) - x / ?u\<bar> * ?u"
    using u by (simp add: abs_mult)
  also have "\<dots> \<le> (1 / 2) * ?u"
    using round_half_even_error [of "x / ?u"] u by (simp only: mult_le_cancel_right_pos)
  finally show ?thesis by simp
qed

lemma float_sum_exact: "exact_sum cs acc \<Longrightarrow> float_sum cs acc = acc + sum_list cs"
  by (induction cs arbitrary: acc) (simp_all add: add.assoc)

text \<open>
  C5, as the code has it. For the empty sequence \<^verbatim>\<open>average_confidence\<close> is exactly 0.
  For a non-empty sequence it is the float mean of the confidences rounded to 3
  decimal places: the confidences are added from left to right and the sum is divided
  by the count, each result rounded to binary64. Where none of these operations
  rounds, this is the arithmetic mean of the confidences rounded to 3 decimal places.
\<close>

theorem average_confidence_float_mean:
  "average_confidence (generate_redaction_report []) = 0 \<and>
   (es \<noteq> [] \<longrightarrow>
      average_confidence (generate_redaction_report es) =
        py_round (fl (float_sum (map confidence es) 0 / fl (of_nat (length es)))) 3) \<and>
   (es \<noteq> [] \<and> no_rounding (map confidence es) \<longrightarrow>
      average_confidence (generate_redaction_report es) =
        py_round (sum_list (map confidence es) / of_nat (length es)) 3)"
proof (intro conjI impI)
  show "average_confidence (generate_redaction_report []) = 0"
    by (simp add: generate_redaction_report_def py_round_def round_half_even_def)
next
  assume "es \<noteq> []"
  then show "average_confidence (generate_redaction_report es) =
        py_round (fl (float_sum (map confidence es) 0 / fl (of_nat (length es)))) 3"
    by (simp add: generate_redaction_report_def Let_def)
next
  assume a: "es \<noteq> [] \<and> no_rounding (map confidence es)"
  then have s: "float_sum (map confidence es) 0 = sum_list (map confidence es)"
    by (simp add: no_rounding_def float_sum_exact)
  from a have n: "fl (of_nat (length es)) = (of_nat (length es) :: rat)"
    by (simp add: no_rounding_def)
  from a have q: "fl (sum_list (map confidence es) / of_nat (length es)) =
                    sum_list (map confidence es) / of_nat (length es)"
    by (simp add: no_rounding_def)
  from a show "average_confidence (generate_redaction_report es) =
        py_round (sum_list (map confidence es) / of_nat (length es)) 3"
    by (simp add: generate_redaction_report_def Let_def s n q)
qed

theorem average_confidence_float_mean_witness:
  "no_rounding [1 / 2, 1 / 4] \<and>
   average_confidence
     (generate_redaction_report [entity_with_confidence (1 / 2), entity_with_confidence (1 / 4)])
     = 375 / 1000 \<and>
   py_round (sum_list [1 / 2, 1 / 4] / 2) 3 = 375 / 1000 \<and>
   py_round (fl (float_sum [1 / 2, 1 / 4] 0 / fl 2)) 3 = 375 / 1000"
proof -
  let ?es = "[entity_with_confidence (1 / 2), entity_with_confidence (1 / 4)]"
  have m: "map confidence ?es = [1 / 2, 1 / 4]"
    by (simp add: entity_with_confidence_def)
  have nr: "no_rounding [1 / 2, 1 / 4]"
    by code_simp
  have v: "py_round (sum_list [1 / 2, 1 / 4] / 2) 3 = 375 / 1000"
    by code_simp
  have w: "py_round (fl (float_sum [1 / 2, 1 / 4] 0 / fl 2)) 3 = 375 / 1000"
    by code_simp
  have e: "?es \<noteq> [] \<and> no_rounding (map confidence ?es)"
    by (simp only: m nr) simp
  with average_confidence_float_mean [of ?es]
  have "average_confidence (generate_redaction_report ?es) =
          py_round (sum_list (map confidence ?es) / of_nat (length ?es)) 3"
    by blast
  also have "\<dots> = py_round (sum_list [1 / 2, 1 / 4] / 2) 3"
    by (simp only: m) simp
  finally have a: "average_confidence (generate_redaction_report ?es) = 375 / 1000"
    by (simp only: v)
  from nr a v w show ?thesis by blast
qed

text \<open>
  C5 as stated fails: for the confidences 0.975 and 0.8 the report has the average
  0.887, because the float sum 1.775 lies below the sum of the two floats and its
  half below 0.8875. The arithmetic mean rounded to 3 decimal places is 0.888, for the
  two floats as well as for the two decimals.
\<close>

theorem average_confidence_not_rounded_mean:
  "average_confidence
     (generate_redaction_report
        [entity_with_confidence (975 / 1000), entity_with_confidence (8 / 10)]) = 887 / 1000 \<and>
   py_round ((fl (975 / 1000) + fl (8 / 10)) / 2) 3 = 888 / 1000 \<and>
   py_round ((975 / 1000 + 8 / 10) / 2) 3 = 888 / 1000"
  by code_simp

text \<open>The model of binary64 rounding on two decimals, as Python reads them.\<close>

lemma fl_examples:
  "fl (1 / 10) = 3602879701896397 / 36028797018963968 \<and>
   fl (975 / 1000) = 8782019273372467 / 9007199254740992"
  by code_simp

section \<open>Further properties\<close>

text \<open>
  Response items that carry the five fields with values of the annotated types are
  never the cause of an exception: the AI-based extractor returns the entities of
  exactly those items whose \<^verbatim>\<open>pii_type\<close> string is the value of a member, in order.
\<close>

theorem ai_items_kept_by_value:
  "entities_of_pii_data (JArray (map (\<lambda>(t, ty, c, s, n). ai_item t ty c s n) fs)) =
     Returns (List.map_filter entity_of_fields fs)"
  by (simp add: entities_of_pii_data_def convert_loop_ai_items)

text \<open>The report of the empty sequence: no entities, and an average of 0.\<close>

theorem empty_report:
  "generate_redaction_report [] =
     \<lparr>total_redactions = 0, average_confidence = 0, by_type = [], entities = []\<rparr>"
  by code_simp

text \<open>The pattern-based extractor finds nothing in the empty text.\<close>

theorem pattern_extractor_empty_text: "apply_regex_patterns [] = []"
  by code_simp

end
